theory Spec2Isabelle
  imports Complex_Main "HOL-Library.Monad_Syntax" "HOL-Library.While_Combinator"
begin

section \<open>Data model\<close>

text \<open>
  JavaScript numbers are modelled as real numbers: every statement below is about the
  arithmetic the code writes down, not about the rounding of IEEE doubles.

  An \<open>AudioBuffer\<close> of the Web Audio API: its sample rate, its length in frames, its
  duration in seconds and one sample array per channel.
\<close>

record AudioBuffer =
  buf_sampleRate :: real
  buf_length :: nat
  buf_duration :: real
  buf_channels :: "real list list"

definition numberOfChannels :: "AudioBuffer \<Rightarrow> nat" where
  "numberOfChannels b = length (buf_channels b)"

definition getChannelData :: "AudioBuffer \<Rightarrow> nat \<Rightarrow> real list" where
  "getChannelData b k = buf_channels b ! k"

text \<open>
  What the Web Audio API guarantees of every buffer it hands out: a positive sample rate,
  at least one frame and one channel, every channel as long as the buffer, and
  \<open>duration = length / sampleRate\<close>.
\<close>

definition wf_buffer :: "AudioBuffer \<Rightarrow> bool" where
  "wf_buffer b \<longleftrightarrow>
     0 < buf_sampleRate b \<and> 0 < buf_length b \<and>
     buf_duration b = real (buf_length b) / buf_sampleRate b \<and>
     buf_channels b \<noteq> [] \<and>
     list_all (\<lambda>c. length c = buf_length b) (buf_channels b)"

text \<open>
  Reading a typed array at an index: outside the array JavaScript yields \<open>undefined\<close>,
  which is \<open>None\<close> here.
\<close>

definition rd :: "real list \<Rightarrow> int \<Rightarrow> real option" where
  "rd a i = (if 0 \<le> i \<and> i < int (length a) then Some (a ! nat i) else None)"

section \<open>Cue points (useAudioDeck.ts, lines 470-490)\<close>

text \<open>
  The three callbacks close over the React state \<open>cuePoints\<close> and \<open>currentTime\<close>; the
  functions take them as arguments and return the new \<open>cuePoints\<close> (or the seek target).
\<close>

definition addCuePoint :: "real list \<Rightarrow> real \<Rightarrow> real list" where
  "addCuePoint cuePoints currentTime =
     (if \<not> list_ex (\<lambda>c. \<bar>c - currentTime\<bar> < 0.1) cuePoints
      then sort (cuePoints @ [currentTime])
      else cuePoints)"

definition removeCuePoint :: "real list \<Rightarrow> real \<Rightarrow> real list" where
  "removeCuePoint cuePoints currentTime = filter (\<lambda>c. \<bar>c - currentTime\<bar> \<ge> 0.1) cuePoints"

definition jumpToNextCue_target :: "real list \<Rightarrow> real \<Rightarrow> real" where
  "jumpToNextCue_target cuePoints currentTime =
     (if length cuePoints > 0
      then (case find (\<lambda>c. c > currentTime + 0.05) cuePoints of
              Some nextCue \<Rightarrow> nextCue
            | None \<Rightarrow> cuePoints ! 0)
      else 0)"

text \<open>The cue operations a deck offers, and the lists they can produce from the empty one.\<close>

datatype cue_op = AddCue real | RemoveCue real

fun cue_step :: "real list \<Rightarrow> cue_op \<Rightarrow> real list" where
  "cue_step cs (AddCue t) = addCuePoint cs t"
| "cue_step cs (RemoveCue t) = removeCuePoint cs t"

definition cue_run :: "cue_op list \<Rightarrow> real list" where
  "cue_run ops = foldl cue_step [] ops"

text \<open>No two entries (at different positions) closer than 0.1 seconds.\<close>

fun spaced :: "real list \<Rightarrow> bool" where
  "spaced [] = True"
| "spaced (c # cs) = (list_all (\<lambda>d. \<bar>d - c\<bar> \<ge> 0.1) cs \<and> spaced cs)"

text \<open>
  The target as the specification words it: the smallest cue point above
  \<open>currentTime + 0.05\<close>, else the smallest cue point, else 0.
\<close>

definition nextCue_spec :: "real list \<Rightarrow> real \<Rightarrow> real" where
  "nextCue_spec cuePoints t =
     (let later = filter (\<lambda>c. c > t + 0.05) cuePoints in
      if later \<noteq> [] then Min (set later)
      else if cuePoints \<noteq> [] then Min (set cuePoints)
      else 0)"

section \<open>The scratch engine's render callback (useAudioDeck.ts, lines 369-407)\<close>

definition interp :: "real list \<Rightarrow> int \<Rightarrow> int \<Rightarrow> real \<Rightarrow> real option" where
  "interp chan idxFloor idxCeil frac' =
     do { a \<leftarrow> rd chan idxFloor; b \<leftarrow> rd chan idxCeil; Some (a * (1 - frac') + b * frac') }"

text \<open>
  One iteration of the loop over the output block: the new \<open>currentSample\<close>, the two
  output samples (\<open>None\<close> if a read fell outside its array) and the indices read.
\<close>

record frame_result =
  fr_currentSample :: real
  fr_outL :: "real option"
  fr_outR :: "real option"
  fr_reads :: "int list"

definition scratch_frame :: "AudioBuffer \<Rightarrow> real \<Rightarrow> real \<Rightarrow> frame_result" where
  "scratch_frame buffer targetSample currentSample =
     (let chanL = getChannelData buffer 0;
          chanR = (if numberOfChannels buffer > 1 then getChannelData buffer 1 else chanL);
          maxSample = int (buf_length buffer) - 1;
          diff = targetSample - currentSample;
          step = diff * 0.5;
          idx = currentSample + step
      in if idx < 0 \<or> idx > of_int maxSample
         then \<lparr>fr_currentSample = idx, fr_outL = Some 0, fr_outR = Some 0, fr_reads = []\<rparr>
         else
           (let idxFloor = \<lfloor>idx\<rfloor>;
                frac' = idx - of_int idxFloor;
                idxCeil = min (idxFloor + 1) maxSample
            in \<lparr>fr_currentSample = idx,
                fr_outL = interp chanL idxFloor idxCeil frac',
                fr_outR = interp chanR idxFloor idxCeil frac',
                fr_reads = [idxFloor, idxCeil]\<rparr>))"

text \<open>The loop itself: \<open>n\<close> frames, each starting where the last one left \<open>currentSample\<close>.\<close>

fun render_frames :: "AudioBuffer \<Rightarrow> real \<Rightarrow> nat \<Rightarrow> real \<Rightarrow> real \<times> frame_result list" where
  "render_frames buffer targetSample 0 currentSample = (currentSample, [])"
| "render_frames buffer targetSample (Suc n) currentSample =
     (let r = scratch_frame buffer targetSample currentSample;
          rest = render_frames buffer targetSample n (fr_currentSample r)
      in (fst rest, r # snd rest))"

text \<open>Linear interpolation as the specification words it.\<close>

definition lerp_spec :: "real list \<Rightarrow> nat \<Rightarrow> real \<Rightarrow> real" where
  "lerp_spec chan bufferLength idx =
     chan ! nat \<lfloor>idx\<rfloor> * (1 - (idx - of_int \<lfloor>idx\<rfloor>)) +
     chan ! nat (min (\<lfloor>idx\<rfloor> + 1) (int bufferLength - 1)) * (idx - of_int \<lfloor>idx\<rfloor>)"

definition frame_ok :: "AudioBuffer \<Rightarrow> frame_result \<Rightarrow> bool" where
  "frame_ok b r \<longleftrightarrow>
     (let idx = fr_currentSample r;
          chanL = getChannelData b 0;
          chanR = (if numberOfChannels b > 1 then getChannelData b 1 else chanL)
      in (if idx < 0 \<or> idx > real (buf_length b) - 1
          then fr_outL r = Some 0 \<and> fr_outR r = Some 0 \<and> fr_reads r = []
          else fr_outL r = Some (lerp_spec chanL (buf_length b) idx) \<and>
               fr_outR r = Some (lerp_spec chanR (buf_length b) idx) \<and>
               fr_reads r = [\<lfloor>idx\<rfloor>, min (\<lfloor>idx\<rfloor> + 1) (int (buf_length b) - 1)]) \<and>
         list_all (\<lambda>i. 0 \<le> i \<and> i \<le> int (buf_length b) - 1) (fr_reads r))"

section \<open>The deck hook (useAudioDeck.ts, lines 160-341, 345-367 and 409-511)\<close>

text \<open>
  The node that \<open>handlePlay\<close> and \<open>seek\<close> create and start: the buffer it plays, its
  \<open>playbackRate\<close> parameter and the offset given to \<open>start\<close>.
\<close>

record BufferSource =
  src_buffer :: AudioBuffer
  src_playbackRate :: real
  src_offset :: real

text \<open>
  Everything the hook holds for one deck: its \<open>audioContext\<close> argument (whether it is
  non-null, and the clock \<open>audioContext.currentTime\<close>), \<open>refs.current\<close> (whether it has
  been created, and its \<open>source\<close>, \<open>startTime\<close> and \<open>pausedAt\<close>), \<open>scratchState.current\<close>,
  and the React state. A callback reads the state as it is when the callback runs; the
  one callback that calls another after state has been set, \<open>jumpToNextCue\<close>, is given
  the state its closure holds.
  \<open>processor\<close> holds the buffer that the render callback of \<open>scratchState.current.processor\<close>
  closed over.
\<close>

record deck =
  audioContext :: bool
  ctx_currentTime :: real
  refs :: bool
  source :: "BufferSource option"
  startTime :: real
  pausedAt :: real
  isScratching :: bool
  currentSample :: real
  targetSample :: real
  wasPlayingBeforeScratch :: bool
  processor :: "AudioBuffer option"
  isPlaying :: bool
  currentTime :: real
  buffer :: "AudioBuffer option"
  duration :: real
  cuePoints :: "real list"
  fileName :: "string option"
  bpm :: real
  playbackRate :: real

text \<open>Lines 167-184 and 209-219: the initial state, once the audio context exists.\<close>

definition deck_init :: deck where
  "deck_init =
     \<lparr>audioContext = True, ctx_currentTime = 0, refs = True, source = None, startTime = 0,
      pausedAt = 0, isScratching = False, currentSample = 0, targetSample = 0,
      wasPlayingBeforeScratch = False, processor = None, isPlaying = False, currentTime = 0,
      buffer = None, duration = 0, cuePoints = [], fileName = None, bpm = 0,
      playbackRate = 1\<rparr>"

text \<open>Lines 329-341.\<close>

definition handlePause :: "deck \<Rightarrow> deck" where
  "handlePause d =
     (if \<not> audioContext d \<or> \<not> refs d \<or> \<not> isPlaying d then d
      else
        (let d1 = (case source d of
                     Some s \<Rightarrow>
                       (let elapsed = (ctx_currentTime d - startTime d) * playbackRate d
                        in d\<lparr>pausedAt := min (pausedAt d + elapsed) (duration d), source := None\<rparr>)
                   | None \<Rightarrow> d)
         in d1\<lparr>currentTime := pausedAt d1, isPlaying := False\<rparr>))"

text \<open>Lines 230-252: one run of the polling loop's \<open>update\<close>, the position query.\<close>

definition update :: "deck \<Rightarrow> deck" where
  "update d =
     (if audioContext d \<and> refs d then
        (if isScratching d then
           (case buffer d of
              Some b \<Rightarrow>
                (let time = currentSample d / buf_sampleRate b
                 in d\<lparr>currentTime := max 0 (min time (buf_duration b)), pausedAt := time\<rparr>)
            | None \<Rightarrow> d)
         else if isPlaying d then
           (case source d of
              Some s \<Rightarrow>
                (let calculatedTime =
                       pausedAt d + (ctx_currentTime d - startTime d) * playbackRate d
                 in if calculatedTime \<ge> duration d \<and> duration d > 0
                    then (handlePause d)\<lparr>currentTime := 0, pausedAt := 0\<rparr>
                    else d\<lparr>currentTime := calculatedTime\<rparr>)
            | None \<Rightarrow> d)
         else d)
      else d)"

text \<open>
  Lines 261-265: the effect that runs when \<open>playbackRate\<close> has changed. It sets the rate
  parameter of the live source and nothing else.
\<close>

definition playbackRate_effect :: "deck \<Rightarrow> deck" where
  "playbackRate_effect d =
     (case source d of
        Some s \<Rightarrow>
          (if refs d \<and> \<not> isScratching d
           then d\<lparr>source := Some (s\<lparr>src_playbackRate := playbackRate d\<rparr>)\<rparr>
           else d)
      | None \<Rightarrow> d)"

text \<open>Lines 505-507, with the effect above when the state changes.\<close>

definition setPlaybackRate :: "real \<Rightarrow> deck \<Rightarrow> deck" where
  "setPlaybackRate v d =
     (if v = playbackRate d then d else playbackRate_effect (d\<lparr>playbackRate := v\<rparr>))"

text \<open>Lines 509-511.\<close>

definition setBpm :: "real \<Rightarrow> deck \<Rightarrow> deck" where
  "setBpm v d = d\<lparr>bpm := v\<rparr>"

text \<open>
  Lines 267-299, \<open>loadFile\<close>, an async function: \<open>loadFile_begin\<close> is what runs before
  the first \<open>await\<close> (lines 268-276), \<open>loadFile_resolve\<close> what runs when decoding has
  succeeded (lines 281-289), \<open>loadFile_reject\<close> the \<open>catch\<close> block (lines 295-298: a log
  line and an alert), and \<open>analysis_done\<close> the callback given to the promise of
  \<open>analyzeBPM\<close> (lines 291-293). Other callbacks can run between them.
\<close>

definition loadFile_begin :: "string \<Rightarrow> deck \<Rightarrow> deck" where
  "loadFile_begin name d =
     (if \<not> audioContext d then d
      else d\<lparr>fileName := Some name, isPlaying := False, isScratching := False,
             source := (if refs d then None else source d)\<rparr>)"

definition loadFile_resolve :: "AudioBuffer \<Rightarrow> deck \<Rightarrow> deck" where
  "loadFile_resolve decodedBuffer d =
     (let d1 = d\<lparr>buffer := Some decodedBuffer, duration := buf_duration decodedBuffer,
                 pausedAt := (if refs d then 0 else pausedAt d), currentTime := 0,
                 playbackRate := 1, cuePoints := [], bpm := 0\<rparr>
      in if playbackRate d = 1 then d1 else playbackRate_effect d1)"

definition loadFile_reject :: "deck \<Rightarrow> deck" where
  "loadFile_reject d = d"

definition analysis_done :: "real \<Rightarrow> deck \<Rightarrow> deck" where
  "analysis_done detected d = d\<lparr>bpm := (if detected > 0 then detected else 0)\<rparr>"

text \<open>Lines 301-327.\<close>

definition handlePlay :: "deck \<Rightarrow> deck" where
  "handlePlay d =
     (case buffer d of
        None \<Rightarrow> d
      | Some b \<Rightarrow>
          if \<not> audioContext d \<or> \<not> refs d then d
          else if isPlaying d then d
          else if isScratching d then d
          else
            (let offset = pausedAt d;
                 d1 = (if offset \<ge> buf_duration b
                       then d\<lparr>pausedAt := 0, currentTime := 0,
                              source := Some \<lparr>src_buffer = b, src_playbackRate = playbackRate d,
                                             src_offset = 0\<rparr>\<rparr>
                       else d\<lparr>currentTime := offset,
                              source := Some \<lparr>src_buffer = b, src_playbackRate = playbackRate d,
                                             src_offset = offset\<rparr>\<rparr>)
             in d1\<lparr>startTime := ctx_currentTime d, isPlaying := True\<rparr>))"

text \<open>Lines 345-367 and 409.\<close>

definition startScratch :: "deck \<Rightarrow> deck" where
  "startScratch d =
     (case buffer d of
        None \<Rightarrow> d
      | Some b \<Rightarrow>
          if \<not> audioContext d \<or> \<not> refs d then d
          else
            (let startSample = pausedAt d * buf_sampleRate b
             in d\<lparr>wasPlayingBeforeScratch := isPlaying d, isScratching := True,
                   source := (if isPlaying d then None else source d),
                   isPlaying := False,
                   currentSample := startSample, targetSample := startSample,
                   processor := Some b\<rparr>))"

text \<open>
  Lines 369-407 run as a callback of the audio thread: a block of \<open>n\<close> frames rendered
  from the buffer \<open>b\<close> that the callback closed over.
\<close>

definition onaudioprocess :: "AudioBuffer \<Rightarrow> nat \<Rightarrow> deck \<Rightarrow> deck" where
  "onaudioprocess b n d =
     d\<lparr>currentSample := fst (render_frames b (targetSample d) n (currentSample d))\<rparr>"

text \<open>Lines 413-434.\<close>

definition stopScratch :: "deck \<Rightarrow> deck" where
  "stopScratch d =
     (if \<not> isScratching d \<or> \<not> audioContext d then d
      else
        (let d1 = d\<lparr>processor := None, isScratching := False\<rparr>;
             d2 = (case buffer d1 of
                     Some b \<Rightarrow>
                       d1\<lparr>pausedAt := currentSample d1 / buf_sampleRate b,
                           currentTime := currentSample d1 / buf_sampleRate b\<rparr>
                   | None \<Rightarrow> d1)
         in if wasPlayingBeforeScratch d2 then handlePlay d2 else d2))"

text \<open>Lines 436-466.\<close>

definition seek :: "real \<Rightarrow> deck \<Rightarrow> deck" where
  "seek time d =
     (case buffer d of
        None \<Rightarrow> d
      | Some b \<Rightarrow>
          if \<not> refs d then d
          else
            (let newTime = max 0 (min time (duration d))
             in if isScratching d then d\<lparr>targetSample := newTime * buf_sampleRate b\<rparr>
                else
                  (let d1 = d\<lparr>currentTime := newTime, pausedAt := newTime\<rparr>
                   in if isPlaying d \<and> audioContext d
                      then d1\<lparr>source := Some \<lparr>src_buffer = b,
                                               src_playbackRate = playbackRate d,
                                               src_offset = newTime\<rparr>,
                              startTime := ctx_currentTime d\<rparr>
                      else d1)))"

text \<open>Lines 470-479, on the deck.\<close>

definition deck_addCuePoint :: "deck \<Rightarrow> deck" where
  "deck_addCuePoint d = d\<lparr>cuePoints := addCuePoint (cuePoints d) (currentTime d)\<rparr>"

definition deck_removeCuePoint :: "deck \<Rightarrow> deck" where
  "deck_removeCuePoint d = d\<lparr>cuePoints := removeCuePoint (cuePoints d) (currentTime d)\<rparr>"

text \<open>
  Lines 481-490. The \<open>seek\<close> that \<open>jumpToNextCue\<close> calls is the callback of the render in
  which \<open>jumpToNextCue\<close> was made: the refs it reads are as \<open>stopScratch\<close> left them, but
  its \<open>isPlaying\<close> is the state of that render, not the value that \<open>handlePlay\<close> has just
  set. \<open>seek\<close> does not set \<open>isPlaying\<close>, so afterwards it is what \<open>stopScratch\<close> made it.
\<close>

definition jumpToNextCue :: "deck \<Rightarrow> deck" where
  "jumpToNextCue d =
     (let target = jumpToNextCue_target (cuePoints d) (currentTime d);
          d1 = (if isScratching d then stopScratch d else d);
          d2 = seek target (d1\<lparr>isPlaying := isPlaying d\<rparr>)
      in d2\<lparr>isPlaying := isPlaying d1\<rparr>)"

text \<open>The audio clock moves on by \<open>dt\<close> seconds.\<close>

definition tick :: "real \<Rightarrow> deck \<Rightarrow> deck" where
  "tick dt d = d\<lparr>ctx_currentTime := ctx_currentTime d + dt\<rparr>"

text \<open>The clamp of the specification.\<close>

definition clamp :: "real \<Rightarrow> real \<Rightarrow> real \<Rightarrow> real" where
  "clamp t lo hi = (if t < lo then lo else if t > hi then hi else t)"

section \<open>Runs of a deck\<close>

text \<open>
  What can happen to a deck, one callback at a time: the commands of the hook, the two
  outcomes of a pending decode, the completion of a pending tempo analysis, a block of
  the audio callback, a run of \<open>update\<close>, and the passing of time.
\<close>

datatype event =
    EvLoadFile string
  | EvDecoded AudioBuffer
  | EvDecodeFailed
  | EvAnalysed nat real
  | EvPlay
  | EvPause
  | EvSeek real
  | EvStartScratch
  | EvAudioBlock nat
  | EvStopScratch
  | EvAddCuePoint
  | EvRemoveCuePoint
  | EvJumpToNextCue
  | EvSetPlaybackRate real
  | EvSetBpm real
  | EvUpdate
  | EvTick real

text \<open>
  A deck together with the promises still pending: \<open>decoding\<close> counts the calls of
  \<open>loadFile\<close> that wait for their decode, \<open>analysing\<close> lists the loads (numbered in the
  order they were decoded) whose \<open>analyzeBPM\<close> has not completed. \<open>loaded\<close> is the number
  of the load whose buffer the deck holds, and \<open>bpmFrom\<close> the load whose analysis wrote the
  present \<open>bpm\<close> (\<open>None\<close> after the reset of a load or a manual \<open>setBpm\<close>); the code keeps
  neither, they record where the values came from.
\<close>

record session =
  deckOf :: deck
  decoding :: nat
  loads :: nat
  loaded :: "nat option"
  analysing :: "nat list"
  bpmFrom :: "nat option"

definition session_init :: session where
  "session_init =
     \<lparr>deckOf = deck_init, decoding = 0, loads = 0, loaded = None, analysing = [],
      bpmFrom = None\<rparr>"

text \<open>One event; \<open>None\<close> when it cannot happen in this state.\<close>

fun session_step :: "event \<Rightarrow> session \<Rightarrow> session option" where
  "session_step (EvLoadFile name) s =
     Some (s\<lparr>deckOf := loadFile_begin name (deckOf s),
             decoding := (if audioContext (deckOf s) then Suc (decoding s) else decoding s)\<rparr>)"
| "session_step (EvDecoded b) s =
     (if decoding s = 0 then None
      else Some (s\<lparr>deckOf := loadFile_resolve b (deckOf s), decoding := decoding s - 1,
                   loads := Suc (loads s), loaded := Some (loads s),
                   analysing := analysing s @ [loads s], bpmFrom := None\<rparr>))"
| "session_step EvDecodeFailed s =
     (if decoding s = 0 then None
      else Some (s\<lparr>deckOf := loadFile_reject (deckOf s), decoding := decoding s - 1\<rparr>))"
| "session_step (EvAnalysed k detected) s =
     (if k \<in> set (analysing s)
      then Some (s\<lparr>deckOf := analysis_done detected (deckOf s),
                   analysing := removeAll k (analysing s), bpmFrom := Some k\<rparr>)
      else None)"
| "session_step EvPlay s = Some (s\<lparr>deckOf := handlePlay (deckOf s)\<rparr>)"
| "session_step EvPause s = Some (s\<lparr>deckOf := handlePause (deckOf s)\<rparr>)"
| "session_step (EvSeek t) s = Some (s\<lparr>deckOf := seek t (deckOf s)\<rparr>)"
| "session_step EvStartScratch s = Some (s\<lparr>deckOf := startScratch (deckOf s)\<rparr>)"
| "session_step (EvAudioBlock n) s =
     (case processor (deckOf s) of
        Some b \<Rightarrow> Some (s\<lparr>deckOf := onaudioprocess b n (deckOf s)\<rparr>)
      | None \<Rightarrow> None)"
| "session_step EvStopScratch s = Some (s\<lparr>deckOf := stopScratch (deckOf s)\<rparr>)"
| "session_step EvAddCuePoint s = Some (s\<lparr>deckOf := deck_addCuePoint (deckOf s)\<rparr>)"
| "session_step EvRemoveCuePoint s = Some (s\<lparr>deckOf := deck_removeCuePoint (deckOf s)\<rparr>)"
| "session_step EvJumpToNextCue s = Some (s\<lparr>deckOf := jumpToNextCue (deckOf s)\<rparr>)"
| "session_step (EvSetPlaybackRate v) s = Some (s\<lparr>deckOf := setPlaybackRate v (deckOf s)\<rparr>)"
| "session_step (EvSetBpm v) s = Some (s\<lparr>deckOf := setBpm v (deckOf s), bpmFrom := None\<rparr>)"
| "session_step EvUpdate s = Some (s\<lparr>deckOf := update (deckOf s)\<rparr>)"
| "session_step (EvTick dt) s =
     (if dt < 0 then None
      else Some (s\<lparr>deckOf := tick dt (deckOf s)\<rparr>))"

fun run :: "event list \<Rightarrow> session \<Rightarrow> session option" where
  "run [] s = Some s"
| "run (e # es) s = (case session_step e s of None \<Rightarrow> None | Some s' \<Rightarrow> run es s')"

text \<open>Two buffers for the examples: 100 seconds and 10 seconds of silence, one frame a second.\<close>

definition track_a :: AudioBuffer where
  "track_a = \<lparr>buf_sampleRate = 1, buf_length = 100, buf_duration = 100,
              buf_channels = [replicate 100 0]\<rparr>"

definition track_b :: AudioBuffer where
  "track_b = \<lparr>buf_sampleRate = 1, buf_length = 10, buf_duration = 10,
              buf_channels = [replicate 10 0]\<rparr>"

section \<open>The tempo estimator (useAudioDeck.ts, lines 30-158)\<close>

text \<open>
  Lines 46-63 choose the loudest ten seconds and lines 65-94 filter them in an
  \<open>OfflineAudioContext\<close> of the Web Audio API. What that rendering returns is the argument
  \<open>rendering\<close>: \<open>Some filteredData\<close>, or \<open>None\<close> when it threw. The functions below are
  lines 96-152, loop by loop; a loop that may not end is a function into \<open>option\<close>.

  \<open>Math.round\<close> rounds to the nearest integer, a half upwards.
\<close>

definition js_round :: "real \<Rightarrow> int" where
  "js_round x = \<lfloor>x + 1 / 2\<rfloor>"

text \<open>Lines 105-107.\<close>

partial_function (option) downsample_loop ::
  "real list \<Rightarrow> nat \<Rightarrow> nat \<Rightarrow> real list \<Rightarrow> real list option" where
  "downsample_loop filteredData step i downsampled =
     (if i < length filteredData
      then downsample_loop filteredData step (i + step) (downsampled @ [\<bar>filteredData ! i\<bar>])
      else Some downsampled)"

text \<open>Lines 130-132.\<close>

function correlation_loop :: "real list \<Rightarrow> nat \<Rightarrow> int \<Rightarrow> nat \<Rightarrow> real \<Rightarrow> real" where
  "correlation_loop downsampled lag limit i correlation =
     (if int i < limit
      then correlation_loop downsampled lag limit (Suc i)
             (correlation + downsampled ! i * downsampled ! (i + lag))
      else correlation)"
  by pat_completeness auto
termination
  by (relation "measure (\<lambda>(downsampled, lag, limit, i, correlation). nat (limit - int i))") auto

declare correlation_loop.simps [simp del]

text \<open>Lines 124-138, with \<open>maxCorrelation\<close> and \<open>bestLag\<close> as they stand before the iteration.\<close>

function lag_loop :: "real list \<Rightarrow> nat \<Rightarrow> nat \<Rightarrow> real \<Rightarrow> nat \<Rightarrow> real \<times> nat" where
  "lag_loop downsampled maxLag lag maxCorrelation bestLag =
     (if lag \<le> maxLag
      then
        (let limit = min (int (length downsampled) - int lag) (int (length downsampled));
             correlation = correlation_loop downsampled lag limit 0 0
         in if correlation > maxCorrelation
            then lag_loop downsampled maxLag (Suc lag) correlation lag
            else lag_loop downsampled maxLag (Suc lag) maxCorrelation bestLag)
      else (maxCorrelation, bestLag))"
  by pat_completeness auto
termination
  by (relation "measure (\<lambda>(downsampled, maxLag, lag, maxCorrelation, bestLag). Suc maxLag - lag)")
     auto

declare lag_loop.simps [simp del]

text \<open>Lines 149 and 150.\<close>

partial_function (option) double_while :: "real \<Rightarrow> real option" where
  "double_while calculatedBpm =
     (if calculatedBpm < 70 then double_while (calculatedBpm * 2) else Some calculatedBpm)"

partial_function (option) halve_while :: "real \<Rightarrow> real option" where
  "halve_while calculatedBpm =
     (if calculatedBpm > 160 then halve_while (calculatedBpm / 2) else Some calculatedBpm)"

text \<open>
  Lines 41-44, 96-152 and 154-157. The sample rate is positive, so the two lags are
  natural numbers.
\<close>

definition analyzeBPM :: "real \<Rightarrow> real \<Rightarrow> real list option \<Rightarrow> real option" where
  "analyzeBPM bufferDuration sampleRate rendering =
     (if bufferDuration < 10 then Some 0
      else
        (case rendering of
           None \<Rightarrow> Some 0
         | Some filteredData \<Rightarrow>
             (let step = nat \<lfloor>sampleRate / 6000\<rfloor>
              in do {
                   downsampled \<leftarrow> downsample_loop filteredData step 0 [];
                   let effectiveRate = sampleRate / real step;
                   let minLag = nat \<lfloor>effectiveRate * (60 / 160)\<rfloor>;
                   let maxLag = nat \<lfloor>effectiveRate * (60 / 70)\<rfloor>;
                   let bestLag = snd (lag_loop downsampled maxLag minLag 0 0);
                   if bestLag = 0 then Some 0
                   else do {
                     let calculatedBpm = 60 * effectiveRate / real bestLag;
                     let calculatedBpm = real_of_int (js_round (calculatedBpm * 10)) / 10;
                     calculatedBpm \<leftarrow> double_while calculatedBpm;
                     calculatedBpm \<leftarrow> halve_while calculatedBpm;
                     Some (real_of_int (js_round calculatedBpm))
                   }
                 })))"

subsection \<open>The estimator as the specification words it\<close>

text \<open>
  The envelope is the rectified signal, every \<open>step\<close>-th sample; the correlation of a lag
  sums the products of the envelope with itself shifted by the lag; the best lag is the
  first lag of the range whose correlation no other lag of the range exceeds, if some lag
  has a positive correlation; the tempo is folded into the range from 70 to 160 by
  doubling while it is below 70 and then halving while it is above 160.
\<close>

definition envelope_spec :: "real list \<Rightarrow> nat \<Rightarrow> real list" where
  "envelope_spec filteredData step =
     map (\<lambda>j. \<bar>filteredData ! (j * step)\<bar>) [0 ..< (length filteredData + step - 1) div step]"

definition autocorr :: "real list \<Rightarrow> nat \<Rightarrow> real" where
  "autocorr envelope lag = (\<Sum>i < length envelope - lag. envelope ! i * envelope ! (i + lag))"

definition bestLag_spec :: "real list \<Rightarrow> nat \<Rightarrow> nat \<Rightarrow> nat option" where
  "bestLag_spec envelope minLag maxLag =
     (let lags = [minLag ..< Suc maxLag]
      in if list_ex (\<lambda>l. 0 < autocorr envelope l) lags
         then find (\<lambda>l. list_all (\<lambda>l'. autocorr envelope l' \<le> autocorr envelope l) lags) lags
         else None)"

definition fold_spec :: "real \<Rightarrow> real option" where
  "fold_spec x =
     Option.bind (while_option (\<lambda>b. b < 70) (\<lambda>b. b * 2) x)
                 (while_option (\<lambda>b. b > 160) (\<lambda>b. b / 2))"

definition bpm_spec :: "real \<Rightarrow> real list \<Rightarrow> real \<Rightarrow> real option" where
  "bpm_spec bufferDuration envelope effectiveRate =
     (if bufferDuration < 10 then Some 0
      else
        (case bestLag_spec envelope (nat \<lfloor>effectiveRate * 60 / 160\<rfloor>)
                                    (nat \<lfloor>effectiveRate * 60 / 70\<rfloor>) of
           None \<Rightarrow> Some 0
         | Some bestLag \<Rightarrow>
             map_option (\<lambda>b. real_of_int (round b))
               (fold_spec (real_of_int (round (60 * effectiveRate / real bestLag * 10)) / 10))))"

text \<open>The deck after a run from the initial state.\<close>

definition after :: "event list \<Rightarrow> deck option" where
  "after evs = map_option deckOf (run evs session_init)"

text \<open>A deck that has loaded \<open>track_a\<close> and is paused at its start.\<close>

definition loaded_deck :: deck where
  "loaded_deck = loadFile_resolve track_a (loadFile_begin ''a.mp3'' deck_init)"

text \<open>A stereo buffer of four frames for the examples of the render callback.\<close>

definition ramp :: AudioBuffer where
  "ramp = \<lparr>buf_sampleRate = 4, buf_length = 4, buf_duration = 1,
           buf_channels = [[0, 1, 2, 3], [0, 10, 20, 30]]\<rparr>"

text \<open>
  What holds of a deck as long as no decode completes during a scratch: the context and
  the refs exist, the clock has not run backwards, the rate is positive, \<open>pausedAt\<close> and
  \<open>currentTime\<close> lie in the track, \<open>duration\<close> is the duration of the buffer, and during
  a scratch both sample positions lie in the buffer.
\<close>

definition deck_inv :: "deck \<Rightarrow> bool" where
  "deck_inv d \<longleftrightarrow>
     audioContext d \<and> refs d \<and> startTime d \<le> ctx_currentTime d \<and> 0 < playbackRate d \<and>
     0 \<le> pausedAt d \<and> pausedAt d \<le> duration d \<and>
     0 \<le> currentTime d \<and> currentTime d \<le> duration d \<and>
     (case buffer d of
        None \<Rightarrow> duration d = 0 \<and> \<not> isPlaying d \<and> \<not> isScratching d
      | Some b \<Rightarrow>
          wf_buffer b \<and> duration d = buf_duration b \<and>
          (isScratching d \<longrightarrow>
             0 \<le> currentSample d \<and> currentSample d \<le> duration d * buf_sampleRate b \<and>
             0 \<le> targetSample d \<and> targetSample d \<le> duration d * buf_sampleRate b))"

text \<open>
  A run in which every event can happen, every decoded buffer is as the Web Audio API
  makes them and arrives while no scratch is going on, and every rate set is positive.
\<close>

fun event_orderly :: "event \<Rightarrow> session \<Rightarrow> bool" where
  "event_orderly (EvDecoded b) s = (wf_buffer b \<and> \<not> isScratching (deckOf s))"
| "event_orderly (EvSetPlaybackRate v) s = (0 < v)"
| "event_orderly e s = True"

fun orderly :: "event list \<Rightarrow> session \<Rightarrow> bool" where
  "orderly [] s = True"
| "orderly (e # es) s =
     (case session_step e s of
        None \<Rightarrow> False
      | Some s' \<Rightarrow> event_orderly e s \<and> orderly es s')"

section \<open>Evaluation\<close>

lemmas deck_defs =
  after_def session_init_def deck_init_def loaded_deck_def loadFile_begin_def
  loadFile_resolve_def loadFile_reject_def analysis_done_def handlePlay_def handlePause_def
  update_def tick_def setPlaybackRate_def setBpm_def playbackRate_effect_def startScratch_def
  stopScratch_def seek_def track_a_def track_b_def Let_def

lemma wf_tracks: "wf_buffer track_a" "wf_buffer track_b" "wf_buffer ramp"
  by (simp_all add: wf_buffer_def track_a_def track_b_def ramp_def)

section \<open>The position query and the playback rate\<close>

text \<open>
  C1. For a deck that is playing and not scratching, \<open>setPlaybackRate\<close> should change only
  the rate parameter of the live output, and the position query right after the change
  should return what it returned right before. The code does the first and not the
  second: \<open>update\<close> multiplies the whole time since \<open>startTime\<close> by the present rate, and
  \<open>setPlaybackRate\<close> moves neither \<open>startTime\<close> nor \<open>pausedAt\<close>. Ten seconds into
  \<open>track_a\<close> at rate 1 the query returns 10; after \<open>setPlaybackRate 1.08\<close>, with no time
  passed, it returns 10.8. The source node is the same but for its rate.
\<close>

theorem setPlaybackRate_moves_position:
  "map_option currentTime
     (after [EvLoadFile ''a.mp3'', EvDecoded track_a, EvPlay, EvTick 10, EvUpdate]) = Some 10 \<and>
   map_option currentTime
     (after [EvLoadFile ''a.mp3'', EvDecoded track_a, EvPlay, EvTick 10, EvUpdate,
             EvSetPlaybackRate 1.08, EvUpdate]) = Some 10.8 \<and>
   map_option source
     (after [EvLoadFile ''a.mp3'', EvDecoded track_a, EvPlay, EvTick 10, EvUpdate]) =
     Some (Some \<lparr>src_buffer = track_a, src_playbackRate = 1, src_offset = 0\<rparr>) \<and>
   map_option source
     (after [EvLoadFile ''a.mp3'', EvDecoded track_a, EvPlay, EvTick 10, EvUpdate,
             EvSetPlaybackRate 1.08]) =
     Some (Some \<lparr>src_buffer = track_a, src_playbackRate = 1.08, src_offset = 0\<rparr>)"
  by (simp add: deck_defs)

text \<open>
  In general, while neither value reaches the end of the track, the query moves by the
  time played so far times the change of the rate: it is continuous only if no time has
  been played or the rate stays the same.
\<close>

lemma rate_change_shift:
  assumes "audioContext d" "refs d" "isPlaying d" "\<not> isScratching d" "source d = Some s"
      and "pausedAt d + (ctx_currentTime d - startTime d) * playbackRate d < duration d"
      and "pausedAt d + (ctx_currentTime d - startTime d) * v < duration d"
  shows "currentTime (update (setPlaybackRate v d)) - currentTime (update d) =
           (ctx_currentTime d - startTime d) * (v - playbackRate d)"
  using assms
  by (simp add: update_def setPlaybackRate_def playbackRate_effect_def Let_def algebra_simps)

section \<open>A load whose decode fails\<close>

text \<open>
  C2 as stated fails: \<open>loadFile\<close> stops playback and sets the file name before it starts
  to decode. A deck playing \<open>a.mp3\<close> is no longer playing after a failed load of \<open>b.mp3\<close>.
\<close>

theorem failed_load_stops_playback:
  "map_option isPlaying
     (after [EvLoadFile ''a.mp3'', EvDecoded track_a, EvPlay]) = Some True \<and>
   map_option isPlaying
     (after [EvLoadFile ''a.mp3'', EvDecoded track_a, EvPlay,
             EvLoadFile ''b.mp3'', EvDecodeFailed]) = Some False"
  by (simp add: deck_defs)

text \<open>
  C2, amended. After a load whose decode fails, \<open>buffer\<close>, \<open>duration\<close>, \<open>cuePoints\<close>,
  \<open>playbackRate\<close>, \<open>bpm\<close>, \<open>pausedAt\<close> and the stored \<open>currentTime\<close> are what they were
  before the load; \<open>isPlaying\<close> is false if the deck has an audio context, since playback
  is torn down before decoding starts.
\<close>

theorem failed_load_keeps_track:
  "buffer (loadFile_reject (loadFile_begin name d)) = buffer d \<and>
   duration (loadFile_reject (loadFile_begin name d)) = duration d \<and>
   cuePoints (loadFile_reject (loadFile_begin name d)) = cuePoints d \<and>
   playbackRate (loadFile_reject (loadFile_begin name d)) = playbackRate d \<and>
   bpm (loadFile_reject (loadFile_begin name d)) = bpm d \<and>
   pausedAt (loadFile_reject (loadFile_begin name d)) = pausedAt d \<and>
   currentTime (loadFile_reject (loadFile_begin name d)) = currentTime d \<and>
   isPlaying (loadFile_reject (loadFile_begin name d)) = (isPlaying d \<and> \<not> audioContext d)"
  by (simp add: loadFile_reject_def loadFile_begin_def)

section \<open>Completion of a tempo analysis\<close>

text \<open>
  C3. A completion of the analysis of a buffer that a newer load has superseded should be
  discarded, so that \<open>bpm\<close> never holds the result of an analysis of a buffer other than
  the loaded one. The code resets \<open>bpm\<close> to 0 when a buffer is decoded (line 289, "Reset
  BPM to 0 while analyzing"), but the callback of \<open>analyzeBPM\<close> (lines 291-293) sets \<open>bpm\<close>
  whatever has been loaded since. \<open>track_a\<close> is decoded, then \<open>track_b\<close>: \<open>bpm\<close> is 0 and
  both analyses are pending. The analysis of \<open>track_a\<close> completes with 120: the deck holds
  \<open>track_b\<close>, the second load, and its \<open>bpm\<close> is the 120 of the first.
\<close>

theorem stale_analysis_sets_bpm:
  "map_option bpm
     (after [EvLoadFile ''a.mp3'', EvDecoded track_a, EvLoadFile ''b.mp3'', EvDecoded track_b])
     = Some 0 \<and>
   map_option analysing
     (run [EvLoadFile ''a.mp3'', EvDecoded track_a, EvLoadFile ''b.mp3'', EvDecoded track_b]
        session_init) = Some [0, 1] \<and>
   map_option bpm
     (after [EvLoadFile ''a.mp3'', EvDecoded track_a, EvLoadFile ''b.mp3'', EvDecoded track_b,
             EvAnalysed 0 120]) = Some 120 \<and>
   map_option buffer
     (after [EvLoadFile ''a.mp3'', EvDecoded track_a, EvLoadFile ''b.mp3'', EvDecoded track_b,
             EvAnalysed 0 120]) = Some (Some track_b) \<and>
   map_option bpmFrom
     (run [EvLoadFile ''a.mp3'', EvDecoded track_a, EvLoadFile ''b.mp3'', EvDecoded track_b,
           EvAnalysed 0 120] session_init) = Some (Some 0) \<and>
   map_option loaded
     (run [EvLoadFile ''a.mp3'', EvDecoded track_a, EvLoadFile ''b.mp3'', EvDecoded track_b,
           EvAnalysed 0 120] session_init) = Some (Some 1)"
  by (simp add: deck_defs)

section \<open>The range of the position\<close>

text \<open>
  C4. The position should stay between 0 and the duration in every state the commands
  can reach. \<open>update\<close> clamps the position of a scratch (line 236); \<open>stopScratch\<close> writes
  the same quotient unclamped (lines 425-426). A deck holds \<open>track_a\<close> (100 seconds),
  paused at 50; \<open>loadFile\<close> is called for \<open>track_b\<close> (10 seconds); a scratch begins while
  the decode is pending; the decode completes; the scratch ends. The deck then shows
  position 50 in a track of 10 seconds.
\<close>

theorem stopScratch_leaves_range:
  "wf_buffer track_a \<and> wf_buffer track_b \<and>
   map_option currentTime
     (after [EvLoadFile ''a.mp3'', EvDecoded track_a, EvSeek 50, EvLoadFile ''b.mp3'',
             EvStartScratch, EvDecoded track_b, EvStopScratch]) = Some 50 \<and>
   map_option duration
     (after [EvLoadFile ''a.mp3'', EvDecoded track_a, EvSeek 50, EvLoadFile ''b.mp3'',
             EvStartScratch, EvDecoded track_b, EvStopScratch]) = Some 10 \<and>
   map_option buffer
     (after [EvLoadFile ''a.mp3'', EvDecoded track_a, EvSeek 50, EvLoadFile ''b.mp3'',
             EvStartScratch, EvDecoded track_b, EvStopScratch]) = Some (Some track_b)"
  by (simp add: wf_tracks) (simp add: deck_defs)

section \<open>Seeking while paused\<close>

lemma clamp_max_min: "0 \<le> hi \<Longrightarrow> max 0 (min t hi) = clamp t 0 hi"
  by (auto simp: clamp_def max_def min_def)

lemma wf_duration_nonneg: "wf_buffer b \<Longrightarrow> 0 \<le> buf_duration b"
  by (simp add: wf_buffer_def)

text \<open>
  C7. On a deck that holds a buffer, is paused and is not scratching, \<open>seek t\<close> followed
  by the position query yields \<open>clamp t 0 duration\<close>, and \<open>pausedAt\<close> is that value too.
\<close>

theorem seek_paused_clamps:
  assumes "buffer d = Some b" "wf_buffer b" "duration d = buf_duration b" "refs d"
      and "\<not> isPlaying d" "\<not> isScratching d"
  shows "currentTime (update (seek t d)) = clamp t 0 (duration d) \<and>
         pausedAt (update (seek t d)) = clamp t 0 (duration d) \<and>
         pausedAt (seek t d) = clamp t 0 (duration d)"
  using assms wf_duration_nonneg[OF assms(2)]
  by (simp add: seek_def update_def Let_def clamp_max_min)

theorem seek_paused_clamps_witness:
  "buffer loaded_deck = Some track_a \<and> wf_buffer track_a \<and>
   duration loaded_deck = buf_duration track_a \<and> refs loaded_deck \<and>
   \<not> isPlaying loaded_deck \<and> \<not> isScratching loaded_deck \<and>
   clamp 250 0 (duration loaded_deck) = 100 \<and>
   currentTime (update (seek 250 loaded_deck)) = 100 \<and>
   pausedAt (seek 250 loaded_deck) = 100 \<and>
   currentTime (update (seek (- 3) loaded_deck)) = 0 \<and>
   currentTime (update (seek 42 loaded_deck)) = 42"
  using seek_paused_clamps [of loaded_deck track_a 250]
        seek_paused_clamps [of loaded_deck track_a "- 3"]
        seek_paused_clamps [of loaded_deck track_a 42]
  by (simp add: wf_tracks) (simp add: deck_defs clamp_def)

section \<open>The render callback of the scratch engine\<close>

lemma wf_chan0: "wf_buffer b \<Longrightarrow> length (getChannelData b 0) = buf_length b"
  by (cases "buf_channels b") (auto simp: wf_buffer_def getChannelData_def)

lemma wf_chan1: "wf_buffer b \<Longrightarrow> numberOfChannels b > 1 \<Longrightarrow> length (getChannelData b 1) = buf_length b"
  by (auto simp: wf_buffer_def getChannelData_def numberOfChannels_def list_all_length)

lemma floor_in_range:
  fixes idx :: real
  assumes "0 \<le> idx" "idx \<le> real n - 1"
  shows "0 \<le> \<lfloor>idx\<rfloor>" "\<lfloor>idx\<rfloor> \<le> int n - 1" "\<lfloor>idx\<rfloor> < int n"
proof -
  show "0 \<le> \<lfloor>idx\<rfloor>" using assms(1) by simp
  have "idx \<le> of_int (int n - 1)" using assms(2) by simp
  then have "\<lfloor>idx\<rfloor> \<le> \<lfloor>of_int (int n - 1) :: real\<rfloor>" by (rule floor_mono)
  then show "\<lfloor>idx\<rfloor> \<le> int n - 1" by simp
  then show "\<lfloor>idx\<rfloor> < int n" by simp
qed

lemma interp_in_range:
  assumes "length chan = n" "0 \<le> idx" "idx \<le> real n - 1"
  shows "interp chan \<lfloor>idx\<rfloor> (min (\<lfloor>idx\<rfloor> + 1) (int n - 1)) (idx - of_int \<lfloor>idx\<rfloor>) = Some (lerp_spec chan n idx)"
  using floor_in_range[OF assms(2,3)] assms(1)
  by (auto simp: interp_def rd_def lerp_spec_def min_def)

lemma scratch_frame_ok:
  assumes "wf_buffer b"
  shows "frame_ok b (scratch_frame b t c)"
proof -
  let ?idx = "c + (t - c) * 0.5"
  show ?thesis
  proof (cases "?idx < 0 \<or> ?idx > real (buf_length b) - 1")
    case True
    then show ?thesis by (auto simp: frame_ok_def scratch_frame_def Let_def)
  next
    case False
    then have r: "0 \<le> ?idx" "?idx \<le> real (buf_length b) - 1" by auto
    note fl = floor_in_range[OF r]
    have L: "interp (getChannelData b 0) \<lfloor>?idx\<rfloor> (min (\<lfloor>?idx\<rfloor> + 1) (int (buf_length b) - 1)) (?idx - of_int \<lfloor>?idx\<rfloor>)
        = Some (lerp_spec (getChannelData b 0) (buf_length b) ?idx)"
      by (rule interp_in_range[OF wf_chan0[OF assms] r])
    have R: "numberOfChannels b > 1 \<Longrightarrow> interp (getChannelData b 1) \<lfloor>?idx\<rfloor> (min (\<lfloor>?idx\<rfloor> + 1) (int (buf_length b) - 1)) (?idx - of_int \<lfloor>?idx\<rfloor>)
        = Some (lerp_spec (getChannelData b 1) (buf_length b) ?idx)"
      by (rule interp_in_range[OF wf_chan1[OF assms] r])
    from False L R fl show ?thesis
      by (simp add: frame_ok_def scratch_frame_def Let_def)
  qed
qed

lemma render_frames_ok:
  "wf_buffer b \<Longrightarrow> r \<in> set (snd (render_frames b t n c)) \<Longrightarrow> frame_ok b r"
  by (induction n arbitrary: c) (auto simp: Let_def scratch_frame_ok)

text \<open>
  C6. For every frame of a rendered block: if the new \<open>currentSample\<close> is below 0 or
  above \<open>bufferLength - 1\<close>, both outputs are 0 and no sample is read; otherwise each
  output is the linear interpolation between the samples at \<open>floor idx\<close> and at
  \<open>min (floor idx + 1) (bufferLength - 1)\<close>, and every index read lies between 0 and
  \<open>bufferLength - 1\<close>. This is \<open>frame_ok\<close>.
\<close>

theorem scratch_render_in_bounds:
  assumes "wf_buffer b" "r \<in> set (snd (render_frames b tgt n cur))"
  shows "frame_ok b r"
  using assms by (rule render_frames_ok)

theorem scratch_render_in_bounds_witness:
  "wf_buffer ramp \<and>
   scratch_frame ramp 3 0 \<in> set (snd (render_frames ramp 3 2 0)) \<and>
   frame_ok ramp (scratch_frame ramp 3 0) \<and>
   scratch_frame ramp 3 0 =
     \<lparr>fr_currentSample = 1.5, fr_outL = Some 1.5, fr_outR = Some 15, fr_reads = [1, 2]\<rparr> \<and>
   scratch_frame ramp 10 0 \<in> set (snd (render_frames ramp 10 2 0)) \<and>
   frame_ok ramp (scratch_frame ramp 10 0) \<and>
   scratch_frame ramp 10 0 =
     \<lparr>fr_currentSample = 5, fr_outL = Some 0, fr_outR = Some 0, fr_reads = []\<rparr>"
  using scratch_render_in_bounds [of ramp "scratch_frame ramp 3 0" 3 2 0]
        scratch_render_in_bounds [of ramp "scratch_frame ramp 10 0" 10 2 0]
  by (simp add: wf_tracks numeral_2_eq_2 Let_def)
     (simp add: scratch_frame_def interp_def rd_def ramp_def getChannelData_def
        numberOfChannels_def Let_def)

lemma frame_current: "fr_currentSample (scratch_frame b t c) = c + (t - c) * 0.5"
  by (simp add: scratch_frame_def Let_def)

lemma render_frames_fst_Suc:
  "fst (render_frames b t (Suc n) c) = fst (render_frames b t n (c + (t - c) * 0.5))"
  by (simp add: Let_def frame_current)

lemma render_frames_closed: "fst (render_frames b t n c) = t - (t - c) / 2 ^ n"
proof (induction n arbitrary: c)
  case 0
  show ?case by simp
next
  case (Suc n)
  have "fst (render_frames b t (Suc n) c) = t - (t - (c + (t - c) * 0.5)) / 2 ^ n"
    by (simp only: render_frames_fst_Suc Suc.IH)
  also have "\<dots> = t - (t - c) / 2 ^ Suc n" by (simp add: field_simps)
  finally show ?case .
qed

lemma render_frames_limit: "(\<lambda>n. fst (render_frames b t n c)) \<longlonglongrightarrow> t"
proof -
  have "(\<lambda>n. (t - c) * (1 / 2) ^ n) \<longlonglongrightarrow> (t - c) * 0"
    by (intro tendsto_mult_left LIMSEQ_realpow_zero) simp_all
  then have "(\<lambda>n. t - (t - c) * (1 / 2) ^ n) \<longlonglongrightarrow> t - (t - c) * 0"
    by (intro tendsto_diff tendsto_const)
  then show ?thesis by (simp add: render_frames_closed power_divide)
qed

lemma step_between:
  fixes c t :: real
  shows "min c t \<le> c + (t - c) * 0.5" "c + (t - c) * 0.5 \<le> max c t" "\<bar>t - (c + (t - c) * 0.5)\<bar> = \<bar>t - c\<bar> / 2"
  by (auto simp: min_def max_def abs_if field_simps)

lemma render_frames_snoc:
  "fst (render_frames b t (Suc n) c) = fr_currentSample (scratch_frame b t (fst (render_frames b t n c)))"
  by (induction n arbitrary: c) (simp_all add: Let_def)


text \<open>
  C10. A frame moves \<open>currentSample\<close> to \<open>currentSample + (targetSample - currentSample) * 0.5\<close>:
  the distance to the target is halved and the new value lies between the old one and
  the target. With the target held, after \<open>n\<close> frames the distance is the first one
  divided by \<open>2 ^ n\<close>, each value lies between the one before and the target, and the
  values converge to the target.
\<close>

theorem scratch_halves_distance:
  "fr_currentSample (scratch_frame b t c) = c + (t - c) * 0.5 \<and>
   \<bar>t - fr_currentSample (scratch_frame b t c)\<bar> = \<bar>t - c\<bar> / 2 \<and>
   min c t \<le> fr_currentSample (scratch_frame b t c) \<and>
   fr_currentSample (scratch_frame b t c) \<le> max c t \<and>
   \<bar>t - fst (render_frames b t n c)\<bar> = \<bar>t - c\<bar> / 2 ^ n \<and>
   min (fst (render_frames b t n c)) t \<le> fst (render_frames b t (Suc n) c) \<and>
   fst (render_frames b t (Suc n) c) \<le> max (fst (render_frames b t n c)) t \<and>
   (\<lambda>n. fst (render_frames b t n c)) \<longlonglongrightarrow> t"
proof -
  have dist: "\<bar>t - fst (render_frames b t n c)\<bar> = \<bar>t - c\<bar> / 2 ^ n"
    by (simp add: render_frames_closed)
  show ?thesis
    unfolding render_frames_snoc frame_current
    by (intro conjI refl step_between dist render_frames_limit)
qed

section \<open>The range of the position when no decode completes during a scratch\<close>

text \<open>
  Apart from the interleaving of C4 the position does stay in the track: every command keeps
  \<open>deck_inv\<close>, so in an orderly run \<open>currentTime\<close> lies between 0 and \<open>duration\<close>, before
  and after a position query.
\<close>

lemma wf_pos: "wf_buffer b \<Longrightarrow> 0 < buf_sampleRate b \<and> 0 < buf_duration b"
  by (simp add: wf_buffer_def)

lemma inv_init: "deck_inv deck_init"
  by (simp add: deck_inv_def deck_init_def)

lemma inv_tick: "deck_inv d \<Longrightarrow> 0 \<le> dt \<Longrightarrow> deck_inv (tick dt d)"
  by (auto simp: deck_inv_def tick_def split: option.splits)

lemma elapsed_nonneg:
  "deck_inv d \<Longrightarrow> 0 \<le> (ctx_currentTime d - startTime d) * playbackRate d"
  by (simp add: deck_inv_def)

lemma inv_pause: "deck_inv d \<Longrightarrow> deck_inv (handlePause d)"
  using elapsed_nonneg[of d]
  by (auto simp: deck_inv_def handlePause_def Let_def split: option.splits)

lemma inv_play: "deck_inv d \<Longrightarrow> deck_inv (handlePlay d)"
  by (auto simp: deck_inv_def handlePlay_def Let_def dest: wf_pos split: option.splits)

lemma inv_seek: "deck_inv d \<Longrightarrow> deck_inv (seek t d)"
  by (auto simp: deck_inv_def seek_def Let_def mult_right_mono dest: wf_pos split: option.splits)


lemma scratch_time_range:
  fixes c sr dur :: real
  assumes "0 < sr" "0 \<le> c" "c \<le> dur * sr"
  shows "0 \<le> c / sr" "c / sr \<le> dur"
  using assms by (simp_all add: pos_divide_le_eq)

lemma inv_update: "deck_inv d \<Longrightarrow> deck_inv (update d)"
proof -
  assume inv: "deck_inv d"
  show ?thesis
  proof (cases "isScratching d")
    case True
    with inv obtain b where b: "buffer d = Some b" "wf_buffer b" "duration d = buf_duration b"
      and r: "0 \<le> currentSample d" "currentSample d \<le> duration d * buf_sampleRate b"
      by (auto simp: deck_inv_def split: option.splits)
    from wf_pos[OF b(2)] have sr: "0 < buf_sampleRate b" by simp
    note t = scratch_time_range[OF sr r]
    with inv True b show ?thesis
      by (simp add: deck_inv_def update_def Let_def)
  next
    case False
    show ?thesis
    proof (cases "isPlaying d \<and> source d \<noteq> None")
      case False
      with inv \<open>\<not> isScratching d\<close> show ?thesis
        by (auto simp: update_def split: option.splits)
    next
      case True
      then obtain s where s: "source d = Some s" "isPlaying d" by auto
      with inv obtain b where b: "buffer d = Some b" "wf_buffer b" "duration d = buf_duration b"
        by (auto simp: deck_inv_def split: option.splits)
      from wf_pos[OF b(2)] b(3) have dur: "0 < duration d" by simp
      let ?calc = "pausedAt d + (ctx_currentTime d - startTime d) * playbackRate d"
      have nn: "0 \<le> ?calc" using inv elapsed_nonneg[OF inv] by (simp add: deck_inv_def)
      show ?thesis
      proof (cases "?calc \<ge> duration d")
        case True
        with inv s b dur \<open>\<not> isScratching d\<close> show ?thesis
          by (simp add: deck_inv_def update_def handlePause_def Let_def)
      next
        case False
        with inv s b dur nn \<open>\<not> isScratching d\<close> show ?thesis
          by (simp add: deck_inv_def update_def Let_def)
      qed
    qed
  qed
qed

lemma inv_startScratch: "deck_inv d \<Longrightarrow> deck_inv (startScratch d)"
  by (auto simp: deck_inv_def startScratch_def Let_def mult_right_mono dest: wf_pos
      split: option.splits)

lemma inv_stopScratch_only:
  assumes "deck_inv d"
  shows "deck_inv (let d1 = d\<lparr>processor := None, isScratching := False\<rparr>
                   in case buffer d1 of
                        Some b \<Rightarrow> d1\<lparr>pausedAt := currentSample d1 / buf_sampleRate b,
                                      currentTime := currentSample d1 / buf_sampleRate b\<rparr>
                      | None \<Rightarrow> d1) \<or> \<not> isScratching d"
proof (cases "isScratching d")
  case False
  then show ?thesis by simp
next
  case True
  with assms obtain b where b: "buffer d = Some b" "wf_buffer b" "duration d = buf_duration b"
    and r: "0 \<le> currentSample d" "currentSample d \<le> duration d * buf_sampleRate b"
    by (auto simp: deck_inv_def split: option.splits)
  from wf_pos[OF b(2)] have sr: "0 < buf_sampleRate b" by simp
  note t = scratch_time_range[OF sr r]
  with assms b show ?thesis by (simp add: deck_inv_def Let_def)
qed

lemma inv_stopScratch: "deck_inv d \<Longrightarrow> deck_inv (stopScratch d)"
proof -
  assume inv: "deck_inv d"
  show ?thesis
  proof (cases "isScratching d")
    case False
    with inv show ?thesis by (simp add: stopScratch_def)
  next
    case True
    define d2 where "d2 = (let d1 = d\<lparr>processor := None, isScratching := False\<rparr>
                   in case buffer d1 of
                        Some b \<Rightarrow> d1\<lparr>pausedAt := currentSample d1 / buf_sampleRate b,
                                      currentTime := currentSample d1 / buf_sampleRate b\<rparr>
                      | None \<Rightarrow> d1)"
    have ctx: "audioContext d" using inv by (simp add: deck_inv_def)
    have d2: "deck_inv d2" using inv_stopScratch_only[OF inv] True unfolding d2_def by blast
    have "stopScratch d = (if wasPlayingBeforeScratch d2 then handlePlay d2 else d2)"
      unfolding stopScratch_def d2_def using True ctx by (simp only: Let_def simp_thms if_False)
    then show ?thesis using d2 inv_play[OF d2] by simp
  qed
qed


lemma render_between:
  "min c t \<le> fst (render_frames b t n c) \<and> fst (render_frames b t n c) \<le> max c t"
proof -
  define q :: real where "q = 1 / 2 ^ n"
  have q: "0 \<le> q" "q \<le> 1" by (simp_all add: q_def divide_le_eq_1)
  have eq1: "fst (render_frames b t n c) = t - (t - c) * q"
    by (simp add: render_frames_closed q_def)
  have eq2: "fst (render_frames b t n c) = t + (c - t) * q"
    unfolding eq1 by (simp add: algebra_simps)
  show ?thesis
  proof (cases "c \<le> t")
    case True
    then have "0 \<le> (t - c) * q" using q by simp
    moreover have "(t - c) * q \<le> t - c" using True q by (intro mult_left_le) simp_all
    ultimately have "c \<le> t - (t - c) * q" "t - (t - c) * q \<le> t" by linarith+
    then show ?thesis using True unfolding eq1 by (simp add: min_def max_def)
  next
    case False
    then have "0 \<le> (c - t) * q" using q by simp
    moreover have "(c - t) * q \<le> c - t" using False q by (intro mult_left_le) simp_all
    ultimately have "t \<le> t + (c - t) * q" "t + (c - t) * q \<le> c" by linarith+
    then show ?thesis using False unfolding eq2 by (simp add: min_def max_def)
  qed
qed

lemma inv_onaudioprocess: "deck_inv d \<Longrightarrow> deck_inv (onaudioprocess b n d)"
proof -
  assume inv: "deck_inv d"
  let ?c = "fst (render_frames b (targetSample d) n (currentSample d))"
  from render_between[of "currentSample d" "targetSample d" b n]
  have lo: "min (currentSample d) (targetSample d) \<le> ?c"
    and hi: "?c \<le> max (currentSample d) (targetSample d)" by simp_all
  show ?thesis
  proof (cases "buffer d")
    case None
    with inv show ?thesis by (simp add: deck_inv_def onaudioprocess_def)
  next
    case (Some b')
    show ?thesis
    proof (cases "isScratching d")
      case False
      with inv Some show ?thesis by (simp add: deck_inv_def onaudioprocess_def)
    next
      case True
      with inv Some have r: "0 \<le> currentSample d" "currentSample d \<le> duration d * buf_sampleRate b'"
        "0 \<le> targetSample d" "targetSample d \<le> duration d * buf_sampleRate b'"
        by (auto simp: deck_inv_def)
      from lo r(1,3) have "0 \<le> ?c" by (simp add: min_def split: if_splits)
      moreover from hi r(2,4) have "?c \<le> duration d * buf_sampleRate b'"
        by (simp add: max_def split: if_splits)
      ultimately show ?thesis using inv Some True
        by (auto simp: deck_inv_def onaudioprocess_def)
    qed
  qed
qed

lemma inv_loadFile_begin: "deck_inv d \<Longrightarrow> deck_inv (loadFile_begin name d)"
  by (auto simp: deck_inv_def loadFile_begin_def split: option.splits)

lemma inv_loadFile_reject: "deck_inv d \<Longrightarrow> deck_inv (loadFile_reject d)"
  by (simp add: loadFile_reject_def)

lemma inv_effect: "deck_inv d \<Longrightarrow> deck_inv (playbackRate_effect d)"
  by (auto simp: deck_inv_def playbackRate_effect_def split: option.splits)

lemma inv_loadFile_resolve:
  assumes "deck_inv d" "wf_buffer b" "\<not> isScratching d"
  shows "deck_inv (loadFile_resolve b d)"
proof -
  have "deck_inv (d\<lparr>buffer := Some b, duration := buf_duration b,
                 pausedAt := (if refs d then 0 else pausedAt d), currentTime := 0,
                 playbackRate := 1, cuePoints := [], bpm := 0\<rparr>)"
    using assms wf_pos[OF assms(2)] by (simp add: deck_inv_def)
  then show ?thesis using inv_effect by (simp add: loadFile_resolve_def Let_def)
qed

lemma inv_setPlaybackRate: "deck_inv d \<Longrightarrow> 0 < v \<Longrightarrow> deck_inv (setPlaybackRate v d)"
proof -
  assume a: "deck_inv d" "0 < v"
  then have "deck_inv (d\<lparr>playbackRate := v\<rparr>)"
    by (auto simp: deck_inv_def split: option.splits)
  with a(1) inv_effect show ?thesis by (simp add: setPlaybackRate_def)
qed

lemma inv_misc:
  "deck_inv d \<Longrightarrow> deck_inv (setBpm v d)"
  "deck_inv d \<Longrightarrow> deck_inv (analysis_done r d)"
  "deck_inv d \<Longrightarrow> deck_inv (deck_addCuePoint d)"
  "deck_inv d \<Longrightarrow> deck_inv (deck_removeCuePoint d)"
  by (auto simp: deck_inv_def setBpm_def analysis_done_def deck_addCuePoint_def
      deck_removeCuePoint_def split: option.splits)

lemma buffer_kept:
  "buffer (handlePlay d) = buffer d" "buffer (stopScratch d) = buffer d"
  "buffer (seek t d) = buffer d"
  by (auto simp: handlePlay_def stopScratch_def seek_def Let_def split: option.splits)

lemma inv_isPlaying:
  "deck_inv d \<Longrightarrow> \<not> x \<or> buffer d \<noteq> None \<Longrightarrow> deck_inv (d\<lparr>isPlaying := x\<rparr>)"
  by (auto simp: deck_inv_def split: option.splits)

lemma inv_jumpToNextCue:
  assumes "deck_inv d"
  shows "deck_inv (jumpToNextCue d)"
proof -
  define d1 where "d1 = (if isScratching d then stopScratch d else d)"
  define d2 where
    "d2 = seek (jumpToNextCue_target (cuePoints d) (currentTime d)) (d1\<lparr>isPlaying := isPlaying d\<rparr>)"
  have d1: "deck_inv d1" using assms by (simp add: d1_def inv_stopScratch)
  have b1: "buffer d1 = buffer d" by (simp add: d1_def buffer_kept)
  have p: "\<not> isPlaying d \<or> buffer d1 \<noteq> None"
    using assms b1 by (auto simp: deck_inv_def split: option.splits)
  have "deck_inv (d1\<lparr>isPlaying := isPlaying d\<rparr>)" by (rule inv_isPlaying[OF d1 p])
  then have d2: "deck_inv d2" unfolding d2_def by (rule inv_seek)
  have b2: "buffer d2 = buffer d1" by (simp add: d2_def buffer_kept)
  have "\<not> isPlaying d1 \<or> buffer d2 \<noteq> None"
    using d1 b2 by (auto simp: deck_inv_def split: option.splits)
  from inv_isPlaying[OF d2 this] show ?thesis
    by (simp add: jumpToNextCue_def Let_def d1_def d2_def)
qed

lemma session_step_inv:
  assumes "deck_inv (deckOf s)" "session_step e s = Some s'" "event_orderly e s"
  shows "deck_inv (deckOf s')"
  using assms
  by (cases e)
     (auto simp: inv_loadFile_begin inv_loadFile_resolve inv_loadFile_reject inv_misc inv_play
        inv_pause inv_seek inv_startScratch inv_onaudioprocess inv_stopScratch
        inv_jumpToNextCue inv_setPlaybackRate inv_update inv_tick
        split: if_splits option.splits)

lemma run_inv_deck:
  "deck_inv (deckOf s) \<Longrightarrow> orderly evs s \<Longrightarrow> run evs s = Some s' \<Longrightarrow> deck_inv (deckOf s')"
proof (induction evs arbitrary: s)
  case Nil
  then show ?case by simp
next
  case (Cons e evs)
  from Cons.prems(2) obtain s1 where s1: "session_step e s = Some s1"
    and ok: "event_orderly e s" and rest: "orderly evs s1"
    by (auto split: option.splits)
  from session_step_inv[OF Cons.prems(1) s1 ok] have "deck_inv (deckOf s1)" .
  moreover from Cons.prems(3) s1 have "run evs s1 = Some s'" by simp
  ultimately show ?case using Cons.IH rest by blast
qed

lemma position_in_range_orderly:
  assumes "orderly evs session_init" "run evs session_init = Some s"
  shows "0 \<le> currentTime (deckOf s) \<and> currentTime (deckOf s) \<le> duration (deckOf s) \<and>
         0 \<le> currentTime (update (deckOf s)) \<and>
         currentTime (update (deckOf s)) \<le> duration (update (deckOf s))"
proof -
  have "deck_inv (deckOf session_init)" by (simp add: session_init_def inv_init)
  from run_inv_deck[OF this assms] have inv: "deck_inv (deckOf s)" .
  from inv inv_update[OF inv] show ?thesis by (simp add: deck_inv_def)
qed

section \<open>Cue points\<close>

lemma find_sorted_Min:
  fixes xs :: "real list"
  shows "sorted xs \<Longrightarrow> filter P xs \<noteq> [] \<Longrightarrow> find P xs = Some (Min (set (filter P xs)))"
proof (induction xs)
  case Nil
  then show ?case by simp
next
  case (Cons x xs)
  show ?case
  proof (cases "P x")
    case True
    have "Min (set (filter P (x # xs))) = x"
      using Cons.prems(1) True by (intro Min_eqI) auto
    with True show ?thesis by simp
  next
    case False
    with Cons show ?thesis by simp
  qed
qed

lemma find_None_filter: "filter P xs = [] \<Longrightarrow> find P xs = None"
  by (induction xs) (auto split: if_splits)

lemma sorted_hd_Min:
  fixes xs :: "real list"
  shows "sorted xs \<Longrightarrow> xs \<noteq> [] \<Longrightarrow> xs ! 0 = Min (set xs)"
  by (cases xs) (auto intro!: Min_eqI [symmetric])


text \<open>
  C8. On a sorted list of cue points (the list of a deck always is, see C9) the target of
  \<open>jumpToNextCue\<close> is the smallest cue point above \<open>currentTime + 0.05\<close> if there is one,
  else the smallest cue point, else 0. With cue points 10, 20 and 30 the target is 30 at
  25 and 10 at 35.
\<close>

theorem jumpToNextCue_target_smallest:
  assumes "sorted cs"
  shows "jumpToNextCue_target cs t = nextCue_spec cs t \<and>
         jumpToNextCue_target [10, 20, 30] 25 = 30 \<and>
         jumpToNextCue_target [10, 20, 30] 35 = 10"
proof -
  have "jumpToNextCue_target cs t = nextCue_spec cs t"
    using assms
    by (cases "filter (\<lambda>c. c > t + 0.05) cs = []")
       (auto simp: jumpToNextCue_target_def nextCue_spec_def Let_def find_sorted_Min
          find_None_filter sorted_hd_Min)
  then show ?thesis by (simp add: jumpToNextCue_target_def)
qed

theorem jumpToNextCue_target_smallest_witness:
  "sorted [10, 20, 30 :: real] \<and>
   jumpToNextCue_target [10, 20, 30] 12 = nextCue_spec [10, 20, 30] 12 \<and>
   nextCue_spec [10, 20, 30] 12 = 20 \<and>
   jumpToNextCue_target [10, 20, 30] 19.96 = 30 \<and>
   jumpToNextCue_target [] 5 = nextCue_spec [] 5 \<and>
   jumpToNextCue_target [] 5 = 0"
  using jumpToNextCue_target_smallest [of "[10, 20, 30]" 12]
        jumpToNextCue_target_smallest [of "[]" 5]
  by (simp add: jumpToNextCue_target_def)

lemma sort_snoc_sorted:
  fixes cs :: "real list"
  shows "sorted cs \<Longrightarrow> sort (cs @ [t]) = insort t cs"
proof (induction cs)
  case Nil
  show ?case by simp
next
  case (Cons c cs)
  then have IH: "sort (cs @ [t]) = insort t cs" and le: "\<forall>x\<in>set cs. c \<le> x" by auto
  have "sort ((c # cs) @ [t]) = insort c (sort (cs @ [t]))" by (simp add: sort_key_def)
  also have "\<dots> = insort c (insort t cs)" by (simp only: IH)
  also have "\<dots> = insort t (insort c cs)" by (rule insort_left_comm)
  also have "insort c cs = c # cs" using le by (simp add: insort_is_Cons)
  finally show ?case .
qed

lemma add_near: "list_ex (\<lambda>c. \<bar>c - t\<bar> < 0.1) cs \<Longrightarrow> addCuePoint cs t = cs"
  by (simp add: addCuePoint_def)

lemma add_far: "\<not> list_ex (\<lambda>c. \<bar>c - t\<bar> < 0.1) cs \<Longrightarrow> addCuePoint cs t = sort (cs @ [t])"
  by (simp add: addCuePoint_def)

lemma spaced_iff: "spaced cs \<longleftrightarrow> (\<forall>i<length cs. \<forall>j<length cs. i \<noteq> j \<longrightarrow> \<bar>cs ! i - cs ! j\<bar> \<ge> 0.1)"
proof (induction cs)
  case Nil
  show ?case by simp
next
  case (Cons c cs)
  show ?case
  proof
    assume a: "spaced (c # cs)"
    then have far: "\<forall>k<length cs. \<bar>cs ! k - c\<bar> \<ge> 0.1" and sp: "spaced cs"
      by (auto simp: list_all_length)
    show "\<forall>i<length (c # cs). \<forall>j<length (c # cs). i \<noteq> j \<longrightarrow> \<bar>(c # cs) ! i - (c # cs) ! j\<bar> \<ge> 0.1"
    proof (intro allI impI)
      fix i j assume ij: "i < length (c # cs)" "j < length (c # cs)" "i \<noteq> j"
      show "\<bar>(c # cs) ! i - (c # cs) ! j\<bar> \<ge> 0.1"
      proof (cases i)
        case 0
        with ij obtain j' where "j = Suc j'" "j' < length cs" by (cases j) auto
        with 0 far show ?thesis by (auto simp: abs_minus_commute)
      next
        case (Suc i')
        show ?thesis
        proof (cases j)
          case 0
          with Suc ij far show ?thesis by auto
        next
          case (Suc j')
          with \<open>i = Suc i'\<close> ij sp Cons.IH show ?thesis by auto
        qed
      qed
    qed
  next
    assume a: "\<forall>i<length (c # cs). \<forall>j<length (c # cs). i \<noteq> j \<longrightarrow> \<bar>(c # cs) ! i - (c # cs) ! j\<bar> \<ge> 0.1"
    have "list_all (\<lambda>d. \<bar>d - c\<bar> \<ge> 0.1) cs"
      unfolding list_all_length
    proof (intro allI impI)
      fix k assume "k < length cs"
      with a[rule_format, of "Suc k" 0] show "\<bar>cs ! k - c\<bar> \<ge> 0.1" by simp
    qed
    moreover have "spaced cs"
      unfolding Cons.IH
    proof (intro allI impI)
      fix i j assume "i < length cs" "j < length cs" "i \<noteq> j"
      with a[rule_format, of "Suc i" "Suc j"] show "\<bar>cs ! i - cs ! j\<bar> \<ge> 0.1" by simp
    qed
    ultimately show "spaced (c # cs)" by simp
  qed
qed

lemma spaced_filter: "spaced cs \<Longrightarrow> spaced (filter P cs)"
  by (induction cs) (auto simp: list_all_iff)

lemma spaced_insort:
  "spaced cs \<Longrightarrow> \<forall>c\<in>set cs. \<bar>c - t\<bar> \<ge> 0.1 \<Longrightarrow> spaced (insort t cs)"
proof (induction cs)
  case Nil
  show ?case by simp
next
  case (Cons c cs)
  show ?case
  proof (cases "t \<le> c")
    case True
    with Cons.prems show ?thesis by (auto simp: list_all_iff abs_minus_commute)
  next
    case False
    with Cons show ?thesis by (auto simp: list_all_iff set_insort_key abs_minus_commute)
  qed
qed

lemma add_inv:
  assumes "sorted cs" "spaced cs"
  shows "sorted (addCuePoint cs t) \<and> spaced (addCuePoint cs t)"
proof (cases "list_ex (\<lambda>c. \<bar>c - t\<bar> < 0.1) cs")
  case True
  with assms show ?thesis by (simp add: addCuePoint_def)
next
  case False
  then have far: "\<forall>c\<in>set cs. \<bar>c - t\<bar> \<ge> 0.1" by (auto simp: list_ex_iff)
  have "addCuePoint cs t = insort t cs"
    using False assms(1) by (simp add: addCuePoint_def sort_snoc_sorted)
  with assms far show ?thesis by (simp add: spaced_insort sorted_insort)
qed

lemma remove_inv: "sorted cs \<Longrightarrow> spaced cs \<Longrightarrow> sorted (removeCuePoint cs t) \<and> spaced (removeCuePoint cs t)"
  by (simp add: removeCuePoint_def spaced_filter sorted_wrt_filter)

lemma step_inv: "sorted cs \<and> spaced cs \<Longrightarrow> sorted (cue_step cs x) \<and> spaced (cue_step cs x)"
  by (cases x) (simp_all add: add_inv remove_inv)

lemma foldl_inv: "sorted cs \<and> spaced cs \<Longrightarrow> sorted (foldl cue_step cs ops) \<and> spaced (foldl cue_step cs ops)"
proof (induction ops arbitrary: cs)
  case Nil
  then show ?case by simp
next
  case (Cons x ops)
  from step_inv[OF Cons.prems] have "sorted (cue_step cs x) \<and> spaced (cue_step cs x)" .
  from Cons.IH[OF this] show ?case by simp
qed

lemma run_inv: "sorted (cue_run ops) \<and> spaced (cue_run ops)"
  unfolding cue_run_def by (rule foldl_inv) simp

lemma twice_noop:
  assumes "\<bar>t1 - t2\<bar> < 0.1" "addCuePoint cs t1 \<noteq> cs"
  shows "addCuePoint (addCuePoint cs t1) t2 = addCuePoint cs t1"
proof -
  from assms(2) have "addCuePoint cs t1 = sort (cs @ [t1])"
    by (auto simp: addCuePoint_def split: if_splits)
  then have "t1 \<in> set (addCuePoint cs t1)" by simp
  with assms(1) have "list_ex (\<lambda>c. \<bar>c - t2\<bar> < 0.1) (addCuePoint cs t1)"
    unfolding list_ex_iff by blast
  then show ?thesis by (rule add_near)
qed

lemma add_length: "length (addCuePoint cs t) \<le> Suc (length cs)"
  by (simp add: addCuePoint_def)

lemma twice_length:
  assumes "\<bar>t1 - t2\<bar> < 0.1"
  shows "length (addCuePoint (addCuePoint cs t1) t2) \<le> Suc (length cs)"
proof (cases "addCuePoint cs t1 = cs")
  case True
  then show ?thesis by (simp add: add_length)
next
  case False
  from twice_noop[OF assms False] show ?thesis by (simp add: add_length)
qed

text \<open>
  C9. \<open>addCuePoint\<close> leaves the list as it is when an entry lies within 0.1 seconds of the
  current time; otherwise it adds the current time, the result is sorted, and on a
  sorted list it is the insertion at the sorted position. A second call within 0.1
  seconds of one that stored its time stores nothing, so the two calls store one cue
  point; two such calls never store more than one. Every list that \<open>addCuePoint\<close> and
  \<open>removeCuePoint\<close> produce from the empty list is sorted and has no two entries within
  0.1 seconds of each other.
\<close>

theorem addCuePoint_sorted_dedup:
  "(list_ex (\<lambda>c. \<bar>c - t\<bar> < 0.1) cs \<longrightarrow> addCuePoint cs t = cs) \<and>
   (\<not> list_ex (\<lambda>c. \<bar>c - t\<bar> < 0.1) cs \<longrightarrow>
      sorted (addCuePoint cs t) \<and> set (addCuePoint cs t) = insert t (set cs) \<and>
      length (addCuePoint cs t) = Suc (length cs)) \<and>
   (\<not> list_ex (\<lambda>c. \<bar>c - t\<bar> < 0.1) cs \<and> sorted cs \<longrightarrow> addCuePoint cs t = insort t cs) \<and>
   (\<bar>t1 - t2\<bar> < 0.1 \<and> \<not> list_ex (\<lambda>c. \<bar>c - t1\<bar> < 0.1) cs \<longrightarrow>
      addCuePoint (addCuePoint cs t1) t2 = addCuePoint cs t1 \<and>
      length (addCuePoint (addCuePoint cs t1) t2) = Suc (length cs)) \<and>
   (\<bar>t1 - t2\<bar> < 0.1 \<longrightarrow> length (addCuePoint (addCuePoint cs t1) t2) \<le> Suc (length cs)) \<and>
   sorted (cue_run ops) \<and> spaced (cue_run ops)"
proof (intro conjI impI)
  assume "list_ex (\<lambda>c. \<bar>c - t\<bar> < 0.1) cs"
  then show "addCuePoint cs t = cs" by (rule add_near)
next
  assume far: "\<not> list_ex (\<lambda>c. \<bar>c - t\<bar> < 0.1) cs"
  then show "sorted (addCuePoint cs t)" "set (addCuePoint cs t) = insert t (set cs)"
    "length (addCuePoint cs t) = Suc (length cs)"
    by (simp_all add: add_far)
next
  assume "\<not> list_ex (\<lambda>c. \<bar>c - t\<bar> < 0.1) cs \<and> sorted cs"
  then show "addCuePoint cs t = insort t cs" by (simp add: add_far sort_snoc_sorted)
next
  assume a: "\<bar>t1 - t2\<bar> < 0.1 \<and> \<not> list_ex (\<lambda>c. \<bar>c - t1\<bar> < 0.1) cs"
  then have stored: "addCuePoint cs t1 = sort (cs @ [t1])" by (simp add: add_far)
  then have "length (addCuePoint cs t1) \<noteq> length cs" by simp
  then have "addCuePoint cs t1 \<noteq> cs" by auto
  with a show same: "addCuePoint (addCuePoint cs t1) t2 = addCuePoint cs t1"
    by (simp add: twice_noop)
  show "length (addCuePoint (addCuePoint cs t1) t2) = Suc (length cs)"
    unfolding same by (simp add: stored)
next
  assume "\<bar>t1 - t2\<bar> < 0.1"
  then show "length (addCuePoint (addCuePoint cs t1) t2) \<le> Suc (length cs)"
    by (rule twice_length)
next
  show "sorted (cue_run ops)" "spaced (cue_run ops)" using run_inv[of ops] by simp_all
qed

theorem addCuePoint_sorted_dedup_witness:
  "list_ex (\<lambda>c. \<bar>c - 10.05\<bar> < 0.1) [10, 20 :: real] \<and>
   addCuePoint [10, 20] 10.05 = [10, 20] \<and>
   \<not> list_ex (\<lambda>c. \<bar>c - 15\<bar> < 0.1) [10, 20 :: real] \<and> sorted [10, 20 :: real] \<and>
   addCuePoint [10, 20] 15 = [10, 15, 20] \<and>
   \<bar>15 - 15.05 :: real\<bar> < 0.1 \<and>
   addCuePoint (addCuePoint [10, 20] 15) 15.05 = [10, 15, 20] \<and>
   cue_run [AddCue 20, AddCue 10, AddCue 10.05, RemoveCue 19.95] = [10] \<and>
   sorted (cue_run [AddCue 20, AddCue 10, AddCue 10.05, RemoveCue 19.95]) \<and>
   spaced (cue_run [AddCue 20, AddCue 10, AddCue 10.05, RemoveCue 19.95])"
  using addCuePoint_sorted_dedup
          [where t = "10.05" and cs = "[10, 20]" and ?t1.0 = "15" and ?t2.0 = "15.05"
             and ops = "[AddCue 20, AddCue 10, AddCue 10.05, RemoveCue 19.95]"]
        addCuePoint_sorted_dedup
          [where t = "15" and cs = "[10, 20]" and ?t1.0 = "15" and ?t2.0 = "15.05"
             and ops = "[AddCue 20, AddCue 10, AddCue 10.05, RemoveCue 19.95]"]
  by (simp add: addCuePoint_def removeCuePoint_def cue_run_def)

section \<open>The tempo estimator\<close>

lemma ceil_div_step:
  fixes n step :: nat
  assumes "0 < step" "0 < n"
  shows "(n + step - 1) div step = Suc ((n - step + step - 1) div step)"
proof -
  from assms(2) obtain k where n: "n = Suc k" by (cases n) auto
  show ?thesis
  proof (cases "step \<le> n")
    case True
    then have "n - step + step - 1 = k" using n by simp
    moreover have "n + step - 1 = k + step" using n by simp
    moreover have "(k + step) div step = Suc (k div step)" using assms(1) by simp
    ultimately show ?thesis by (simp only:)
  next
    case False
    then have "n - step + step - 1 = step - 1" by simp
    moreover have "n + step - 1 = k + step" using n by simp
    moreover have "(k + step) div step = Suc (k div step)" using assms(1) by simp
    moreover have "k div step = 0" using False n by simp
    moreover have "(step - 1) div step = 0" using assms(1) by simp
    ultimately show ?thesis by (simp only:)
  qed
qed

lemma downsample_loop_eq:
  assumes "0 < step"
  shows "downsample_loop fd step i acc =
         Some (acc @ map (\<lambda>j. \<bar>fd ! (i + j * step)\<bar>) [0 ..< (length fd - i + step - 1) div step])"
proof (induction "length fd - i" arbitrary: i acc rule: less_induct)
  case less
  show ?case
  proof (cases "i < length fd")
    case False
    then have "length fd - i = 0" by simp
    moreover have "(step - 1) div step = 0" using assms by simp
    ultimately show ?thesis using False by (subst downsample_loop.simps) simp
  next
    case True
    then have n: "0 < length fd - i" by simp
    have dec: "length fd - (i + step) < length fd - i" using True assms by simp
    have cnt: "(length fd - i + step - 1) div step = Suc ((length fd - (i + step) + step - 1) div step)"
      using ceil_div_step[OF assms n] by (simp add: diff_diff_left)
    have "downsample_loop fd step i acc = downsample_loop fd step (i + step) (acc @ [\<bar>fd ! i\<bar>])"
      using True by (subst downsample_loop.simps) simp
    also have "\<dots> = Some ((acc @ [\<bar>fd ! i\<bar>]) @ map (\<lambda>j. \<bar>fd ! (i + step + j * step)\<bar>)
                         [0 ..< (length fd - (i + step) + step - 1) div step])"
      by (rule less[OF dec])
    also have "\<dots> = Some (acc @ map (\<lambda>j. \<bar>fd ! (i + j * step)\<bar>) [0 ..< (length fd - i + step - 1) div step])"
      unfolding cnt map_upt_Suc by (simp add: add.assoc)
    finally show ?thesis .
  qed
qed

lemma downsample_envelope:
  "0 < step \<Longrightarrow> downsample_loop fd step 0 [] = Some (envelope_spec fd step)"
  by (simp add: downsample_loop_eq envelope_spec_def)

lemma correlation_loop_eq:
  "correlation_loop d lag limit i c = c + (\<Sum>k = i ..< nat limit. d ! k * d ! (k + lag))"
proof (induction d lag limit i c rule: correlation_loop.induct)
  case (1 d lag limit i c)
  show ?case
  proof (cases "int i < limit")
    case True
    then have "i < nat limit" by simp
    then have "(\<Sum>k = i ..< nat limit. d ! k * d ! (k + lag)) =
               d ! i * d ! (i + lag) + (\<Sum>k = Suc i ..< nat limit. d ! k * d ! (k + lag))"
      by (simp add: sum.atLeast_Suc_lessThan)
    with True 1 show ?thesis by (subst correlation_loop.simps) simp
  next
    case False
    then have "nat limit \<le> i" by simp
    with False show ?thesis by (subst correlation_loop.simps) simp
  qed
qed

lemma correlation_autocorr:
  "correlation_loop d lag (min (int (length d) - int lag) (int (length d))) 0 0 = autocorr d lag"
proof -
  have "nat (min (int (length d) - int lag) (int (length d))) = length d - lag" by simp
  then show ?thesis by (simp add: correlation_loop_eq autocorr_def atLeast0LessThan)
qed

lemma correlation_autocorr':
  "correlation_loop d lag (int (length d) - int lag) 0 0 = autocorr d lag"
  using correlation_autocorr[of d lag] by simp

lemma lag_loop_unfold:
  "lag_loop d maxLag lag m b =
     (if lag \<le> maxLag
      then (if m < autocorr d lag then lag_loop d maxLag (Suc lag) (autocorr d lag) lag
            else lag_loop d maxLag (Suc lag) m b)
      else (m, b))"
  by (subst lag_loop.simps) (simp only: correlation_autocorr Let_def)

lemma lag_loop_spec:
  "(\<forall>l\<in>{lag..maxLag}. autocorr d l \<le> m) \<and> lag_loop d maxLag lag m b = (m, b) \<or>
   (\<exists>l\<in>{lag..maxLag}. m < autocorr d l \<and> lag_loop d maxLag lag m b = (autocorr d l, l) \<and>
        (\<forall>x\<in>{lag..<l}. autocorr d x < autocorr d l) \<and> (\<forall>x\<in>{l..maxLag}. autocorr d x \<le> autocorr d l))"
proof (induction d maxLag lag m b rule: lag_loop.induct)
  case (1 d maxLag lag m b)
  let ?c = "autocorr d lag"
  show ?case
  proof (cases "lag \<le> maxLag")
    case False
    then have "lag_loop d maxLag lag m b = (m, b)" by (subst lag_loop_unfold) simp
    with False show ?thesis by simp
  next
    case True
    have split: "{lag..maxLag} = insert lag {Suc lag..maxLag}" using True by auto
    show ?thesis
    proof (cases "m < ?c")
      case gt: True
      have unf: "lag_loop d maxLag lag m b = lag_loop d maxLag (Suc lag) ?c lag"
        using True gt by (subst lag_loop_unfold) simp
      from "1.IH"(1)[OF True refl refl] gt
      have IH: "(\<forall>l\<in>{Suc lag..maxLag}. autocorr d l \<le> ?c) \<and> lag_loop d maxLag (Suc lag) ?c lag = (?c, lag) \<or>
        (\<exists>l\<in>{Suc lag..maxLag}. ?c < autocorr d l \<and> lag_loop d maxLag (Suc lag) ?c lag = (autocorr d l, l) \<and>
        (\<forall>x\<in>{Suc lag..<l}. autocorr d x < autocorr d l) \<and> (\<forall>x\<in>{l..maxLag}. autocorr d x \<le> autocorr d l))"
        by (simp add: correlation_autocorr correlation_autocorr')
      then show ?thesis
      proof
        assume a: "(\<forall>l\<in>{Suc lag..maxLag}. autocorr d l \<le> ?c) \<and> lag_loop d maxLag (Suc lag) ?c lag = (?c, lag)"
        have "\<forall>x\<in>{lag..maxLag}. autocorr d x \<le> ?c" using a unfolding split by simp
        with a gt True unf show ?thesis by (intro disjI2 bexI[of _ lag]) auto
      next
        assume "\<exists>l\<in>{Suc lag..maxLag}. ?c < autocorr d l \<and> lag_loop d maxLag (Suc lag) ?c lag = (autocorr d l, l) \<and>
        (\<forall>x\<in>{Suc lag..<l}. autocorr d x < autocorr d l) \<and> (\<forall>x\<in>{l..maxLag}. autocorr d x \<le> autocorr d l)"
        then obtain l where l: "l \<in> {Suc lag..maxLag}" "?c < autocorr d l"
          "lag_loop d maxLag (Suc lag) ?c lag = (autocorr d l, l)"
          "\<forall>x\<in>{Suc lag..<l}. autocorr d x < autocorr d l" "\<forall>x\<in>{l..maxLag}. autocorr d x \<le> autocorr d l"
          by blast
        have "{lag..<l} = insert lag {Suc lag..<l}" using l(1) by auto
        then have "\<forall>x\<in>{lag..<l}. autocorr d x < autocorr d l" using l(2,4) by simp
        moreover have "l \<in> {lag..maxLag}" using l(1) by simp
        moreover have "m < autocorr d l" using gt l(2) by simp
        ultimately show ?thesis using l(3,5) unf by (intro disjI2 bexI[of _ l]) simp_all
      qed
    next
      case le: False
      have unf: "lag_loop d maxLag lag m b = lag_loop d maxLag (Suc lag) m b"
        using True le by (subst lag_loop_unfold) simp
      from "1.IH"(2)[OF True refl refl] le
      have IH: "(\<forall>l\<in>{Suc lag..maxLag}. autocorr d l \<le> m) \<and> lag_loop d maxLag (Suc lag) m b = (m, b) \<or>
        (\<exists>l\<in>{Suc lag..maxLag}. m < autocorr d l \<and> lag_loop d maxLag (Suc lag) m b = (autocorr d l, l) \<and>
        (\<forall>x\<in>{Suc lag..<l}. autocorr d x < autocorr d l) \<and> (\<forall>x\<in>{l..maxLag}. autocorr d x \<le> autocorr d l))"
        by (simp add: correlation_autocorr correlation_autocorr')
      then show ?thesis
      proof
        assume a: "(\<forall>l\<in>{Suc lag..maxLag}. autocorr d l \<le> m) \<and> lag_loop d maxLag (Suc lag) m b = (m, b)"
        have "\<forall>x\<in>{lag..maxLag}. autocorr d x \<le> m" using a le unfolding split by simp
        with a unf show ?thesis by simp
      next
        assume "\<exists>l\<in>{Suc lag..maxLag}. m < autocorr d l \<and> lag_loop d maxLag (Suc lag) m b = (autocorr d l, l) \<and>
        (\<forall>x\<in>{Suc lag..<l}. autocorr d x < autocorr d l) \<and> (\<forall>x\<in>{l..maxLag}. autocorr d x \<le> autocorr d l)"
        then obtain l where l: "l \<in> {Suc lag..maxLag}" "m < autocorr d l"
          "lag_loop d maxLag (Suc lag) m b = (autocorr d l, l)"
          "\<forall>x\<in>{Suc lag..<l}. autocorr d x < autocorr d l" "\<forall>x\<in>{l..maxLag}. autocorr d x \<le> autocorr d l"
          by blast
        have "{lag..<l} = insert lag {Suc lag..<l}" using l(1) by auto
        moreover have "?c < autocorr d l" using le l(2) by simp
        ultimately have "\<forall>x\<in>{lag..<l}. autocorr d x < autocorr d l" using l(4) by simp
        moreover have "l \<in> {lag..maxLag}" using l(1) by simp
        ultimately show ?thesis using l(2,3,5) unf by (intro disjI2 bexI[of _ l]) simp_all
      qed
    qed
  qed
qed

lemma find_upt_first:
  assumes "a \<le> l" "l < b" "P l" "\<forall>x. a \<le> x \<and> x < l \<longrightarrow> \<not> P x"
  shows "find P [a..<b] = Some l"
proof -
  have "l - a < length [a..<b]" using assms(1,2) by simp
  moreover have "[a..<b] ! (l - a) = l" using assms(1,2) by simp
  moreover have "\<forall>j<l - a. \<not> P ([a..<b] ! j)" using assms(1,2,4) by simp
  ultimately show ?thesis using assms(3) unfolding find_Some_iff by metis
qed

lemma bestLag_link:
  assumes "0 < minLag"
  shows "bestLag_spec d minLag maxLag =
           (if snd (lag_loop d maxLag minLag 0 0) = 0 then None
            else Some (snd (lag_loop d maxLag minLag 0 0)))"
    and "snd (lag_loop d maxLag minLag 0 0) \<noteq> 0 \<Longrightarrow>
           minLag \<le> snd (lag_loop d maxLag minLag 0 0) \<and> snd (lag_loop d maxLag minLag 0 0) \<le> maxLag"
proof -
  let ?c = "autocorr d"
  from lag_loop_spec[of minLag maxLag d 0 0]
  consider (none) "\<forall>l\<in>{minLag..maxLag}. ?c l \<le> 0" "lag_loop d maxLag minLag 0 0 = (0, 0)"
    | (some) l where "l \<in> {minLag..maxLag}" "0 < ?c l" "lag_loop d maxLag minLag 0 0 = (?c l, l)"
        "\<forall>x\<in>{minLag..<l}. ?c x < ?c l" "\<forall>x\<in>{l..maxLag}. ?c x \<le> ?c l"
    by blast
  then have "bestLag_spec d minLag maxLag =
           (if snd (lag_loop d maxLag minLag 0 0) = 0 then None
            else Some (snd (lag_loop d maxLag minLag 0 0))) \<and>
         (snd (lag_loop d maxLag minLag 0 0) \<noteq> 0 \<longrightarrow>
           minLag \<le> snd (lag_loop d maxLag minLag 0 0) \<and> snd (lag_loop d maxLag minLag 0 0) \<le> maxLag)"
  proof cases
    case none
    then have "\<not> list_ex (\<lambda>l. 0 < ?c l) [minLag ..< Suc maxLag]"
      by (auto simp: list_ex_iff not_less)
    with none(2) show ?thesis by (simp add: bestLag_spec_def)
  next
    case some
    let ?P = "\<lambda>l. list_all (\<lambda>l'. ?c l' \<le> ?c l) [minLag ..< Suc maxLag]"
    have mem: "l \<in> set [minLag ..< Suc maxLag]"
      using some(1) by (simp only: set_upt atLeastLessThanSuc_atLeastAtMost)
    have ex: "list_ex (\<lambda>l. 0 < ?c l) [minLag ..< Suc maxLag]"
      unfolding list_ex_iff using some(2) mem by blast
    have Pl: "?P l"
      unfolding list_all_iff
    proof
      fix x assume "x \<in> set [minLag ..< Suc maxLag]"
      then have "x \<in> {minLag..<l} \<or> x \<in> {l..maxLag}" by auto
      then show "?c x \<le> ?c l" using some(4,5) by (auto simp: less_imp_le)
    qed
    have notP: "\<forall>x. minLag \<le> x \<and> x < l \<longrightarrow> \<not> ?P x"
    proof (intro allI impI)
      fix x assume x: "minLag \<le> x \<and> x < l"
      then have "?c x < ?c l" using some(4) by simp
      then show "\<not> ?P x" unfolding list_all_iff using mem by (auto simp: not_le)
    qed
    have "find ?P [minLag ..< Suc maxLag] = Some l"
      using some(1) by (intro find_upt_first Pl notP) simp_all
    with ex have "bestLag_spec d minLag maxLag = Some l" by (simp add: bestLag_spec_def)
    moreover have "l \<noteq> 0" using some(1) assms by simp
    ultimately show ?thesis using some(1,3) by simp
  qed
  then show "bestLag_spec d minLag maxLag =
           (if snd (lag_loop d maxLag minLag 0 0) = 0 then None
            else Some (snd (lag_loop d maxLag minLag 0 0)))"
    and "snd (lag_loop d maxLag minLag 0 0) \<noteq> 0 \<Longrightarrow>
           minLag \<le> snd (lag_loop d maxLag minLag 0 0) \<and> snd (lag_loop d maxLag minLag 0 0) \<le> maxLag"
    by blast+
qed

lemma while_agree:
  assumes unf: "\<And>s. f s = (if b s then f (c s) else Some s)"
  shows "\<not> b ((c ^^ n) s) \<Longrightarrow> f s = while_option b c s"
proof (induction n arbitrary: s)
  case 0
  then show ?case by (simp add: unf[of s] while_option_unfold[of b c s])
next
  case (Suc n)
  show ?case
  proof (cases "b s")
    case False
    then show ?thesis by (simp add: unf[of s] while_option_unfold[of b c s])
  next
    case True
    from Suc.prems have "\<not> b ((c ^^ n) (c s))" by (simp add: funpow_swap1)
    from Suc.IH[OF this] True show ?thesis
      by (simp add: unf[of s] while_option_unfold[of b c s])
  qed
qed

lemma while_Some: "\<not> b ((c ^^ n) s) \<Longrightarrow> \<exists>t. while_option b c s = Some t"
  by (auto simp: while_option_def)

lemma halve_pow: "((\<lambda>b::real. b / 2) ^^ n) x = x / 2 ^ n"
  by (induction n) simp_all

lemma double_pow: "((\<lambda>b::real. b * 2) ^^ n) x = x * 2 ^ n"
  by (induction n) simp_all

lemma halve_stops: "\<exists>n. \<not> ((\<lambda>b::real. b / 2) ^^ n) x > 160"
proof -
  obtain n where "x / 160 < 2 ^ n" using real_arch_pow[of 2 "x / 160"] by auto
  then have "x / 2 ^ n < 160" by (simp add: field_simps)
  then show ?thesis unfolding halve_pow by (intro exI[of _ n]) simp
qed

lemma double_stops: "0 < x \<Longrightarrow> \<exists>n. \<not> ((\<lambda>b::real. b * 2) ^^ n) x < 70"
proof -
  assume x: "0 < x"
  obtain n where "70 / x < 2 ^ n" using real_arch_pow[of 2 "70 / x"] by auto
  then have "70 < x * 2 ^ n" using x by (simp add: field_simps)
  then show ?thesis unfolding double_pow by (intro exI[of _ n]) simp
qed

lemma halve_while_eq: "halve_while x = while_option (\<lambda>b. b > 160) (\<lambda>b. b / 2) x"
proof -
  obtain n where "\<not> ((\<lambda>b::real. b / 2) ^^ n) x > 160" using halve_stops by blast
  then show ?thesis by (rule while_agree[where f = halve_while, OF halve_while.simps])
qed

lemma halve_while_Some: "\<exists>y. halve_while x = Some y"
  unfolding halve_while_eq using halve_stops[of x] while_Some[where b = "\<lambda>b. b > 160" and c = "\<lambda>b. b / 2" and s = x] by blast

lemma double_while_eq: "0 < x \<Longrightarrow> double_while x = while_option (\<lambda>b. b < 70) (\<lambda>b. b * 2) x"
proof -
  assume "0 < x"
  then obtain n where "\<not> ((\<lambda>b::real. b * 2) ^^ n) x < 70" using double_stops by blast
  then show ?thesis by (rule while_agree[where f = double_while, OF double_while.simps])
qed

lemma double_while_Some: "0 < x \<Longrightarrow> \<exists>y. double_while x = Some y"
  using double_while_eq[of x] double_stops[of x] while_Some[where b = "\<lambda>b. b < 70" and c = "\<lambda>b. b * 2" and s = x] by auto

lemma fold_agree:
  assumes "0 < x"
  shows "Option.bind (double_while x) halve_while = fold_spec x"
    and "\<exists>y. Option.bind (double_while x) halve_while = Some y"
proof -
  from double_while_Some[OF assms] obtain y where y: "double_while x = Some y" by blast
  then have "while_option (\<lambda>b. b < 70) (\<lambda>b. b * 2) x = Some y" using double_while_eq[OF assms] by simp
  then show "Option.bind (double_while x) halve_while = fold_spec x"
    using y by (simp add: fold_spec_def halve_while_eq)
  show "\<exists>y. Option.bind (double_while x) halve_while = Some y"
    using y halve_while_Some[of y] by simp
qed

lemma js_round_round: "js_round x = round x"
  by (simp add: js_round_def round_def)

lemma rate_facts:
  fixes sr :: real
  assumes "6000 \<le> sr"
  shows "0 < nat \<lfloor>sr / 6000\<rfloor>"
    and "6000 \<le> sr / real (nat \<lfloor>sr / 6000\<rfloor>)"
proof -
  have "1 \<le> sr / 6000" using assms by simp
  then have one: "1 \<le> \<lfloor>sr / 6000\<rfloor>" by (simp add: le_floor_iff)
  then show pos: "0 < nat \<lfloor>sr / 6000\<rfloor>" by simp
  have "real (nat \<lfloor>sr / 6000\<rfloor>) = of_int \<lfloor>sr / 6000\<rfloor>" using one by simp
  also have "\<dots> \<le> sr / 6000" by (rule of_int_floor_le)
  finally have "6000 * real (nat \<lfloor>sr / 6000\<rfloor>) \<le> sr" by simp
  moreover have "0 < real (nat \<lfloor>sr / 6000\<rfloor>)" using pos by simp
  ultimately show "6000 \<le> sr / real (nat \<lfloor>sr / 6000\<rfloor>)"
    by (simp add: pos_le_divide_eq)
qed

lemma minLag_pos:
  fixes eR :: real
  assumes "6000 \<le> eR"
  shows "0 < nat \<lfloor>eR * (60 / 160)\<rfloor>"
proof -
  have "1 \<le> eR * (60 / 160)" using assms by simp
  then have "1 \<le> \<lfloor>eR * (60 / 160)\<rfloor>" by (simp add: le_floor_iff)
  then show ?thesis by simp
qed

lemma bpm_at_least_70:
  fixes eR :: real
  assumes "0 < l" "l \<le> nat \<lfloor>eR * (60 / 70)\<rfloor>"
  shows "70 \<le> real_of_int (round (60 * eR / real l * 10)) / 10"
proof -
  have "0 < \<lfloor>eR * (60 / 70)\<rfloor>" using assms by linarith
  have "real l \<le> real (nat \<lfloor>eR * (60 / 70)\<rfloor>)" using assms(2) by simp
  also have "\<dots> = of_int \<lfloor>eR * (60 / 70)\<rfloor>" using \<open>0 < \<lfloor>eR * (60 / 70)\<rfloor>\<close> by simp
  also have "\<dots> \<le> eR * (60 / 70)" by (rule of_int_floor_le)
  finally have "70 * real l \<le> 60 * eR" by simp
  moreover have "0 < real l" using assms(1) by simp
  ultimately have "70 \<le> 60 * eR / real l" by (simp add: pos_le_divide_eq)
  then have "(700::real) \<le> 60 * eR / real l * 10" by simp
  then have "round (700::real) \<le> round (60 * eR / real l * 10)" by (rule round_mono)
  moreover have "round (700::real) = 700" by (simp add: round_def)
  ultimately have "700 \<le> round (60 * eR / real l * 10)" by simp
  then have "(700::real) \<le> real_of_int (round (60 * eR / real l * 10))" by linarith
  then show ?thesis by simp
qed


text \<open>A constant signal, for the example: every correlation is the number of products.\<close>

lemma autocorr_replicate: "autocorr (replicate n 1) l = real (n - l)"
  by (simp add: autocorr_def)

lemma envelope_replicate:
  assumes "0 < k"
  shows "envelope_spec (replicate (m * k) 1) k = replicate m 1"
proof -
  from assms obtain k' where k: "k = Suc k'" by (cases k) auto
  have "m * k + k - 1 = k' + m * k" using k by simp
  moreover have "(k' + m * k) div k = m + k' div k" using assms by (intro div_mult_self1) simp
  moreover have "k' div k = 0" using k by simp
  ultimately have cnt: "(m * k + k - 1) div k = m" by simp
  have "map (\<lambda>j. \<bar>replicate (m * k) (1::real) ! (j * k)\<bar>) [0..<m] = map (\<lambda>j. 1) [0..<m]"
    using assms by (intro map_cong refl) simp
  then show ?thesis
    unfolding envelope_spec_def length_replicate cnt by (simp add: map_replicate_const)
qed

lemma bestLag_replicate:
  assumes "a \<le> b" "a < n"
  shows "bestLag_spec (replicate n 1) a b = Some a"
proof -
  have mx: "list_all (\<lambda>l'. autocorr (replicate n 1) l' \<le> autocorr (replicate n 1) a) [a ..< Suc b]"
    unfolding list_all_iff autocorr_replicate by auto
  have ex: "list_ex (\<lambda>l. 0 < autocorr (replicate n 1) l) [a ..< Suc b]"
    unfolding list_ex_iff autocorr_replicate using assms by (intro bexI[of _ a]) auto
  have "find (\<lambda>l. list_all (\<lambda>l'. autocorr (replicate n 1) l' \<le> autocorr (replicate n 1) l) [a ..< Suc b])
          [a ..< Suc b] = Some a"
  proof (rule find_upt_first)
    show "a \<le> a" by simp
    show "a < Suc b" using assms(1) by simp
    show "list_all (\<lambda>l'. autocorr (replicate n 1) l' \<le> autocorr (replicate n 1) a) [a ..< Suc b]"
      by (rule mx)
    show "\<forall>x. a \<le> x \<and> x < a \<longrightarrow>
            \<not> list_all (\<lambda>l'. autocorr (replicate n 1) l' \<le> autocorr (replicate n 1) x) [a ..< Suc b]"
      by simp
  qed
  with ex show ?thesis unfolding bestLag_spec_def Let_def by (simp only: if_True)
qed

lemma fold_spec_160: "fold_spec 160 = Some 160"
  by (simp add: fold_spec_def while_option_unfold)



text \<open>
  C5. For a sample rate of at least 6000 Hz (below it the decimation step is 0 and the
  loop of lines 105-107 never ends) the estimator returns, and what it returns is the
  tempo of the specification: 0 for a track shorter than 10 seconds or with no lag of
  positive correlation, else the rounded fold of \<open>60 * effectiveRate / bestLag\<close> rounded
  to one decimal, where \<open>bestLag\<close> is the first lag of the range that maximises the
  correlation.
\<close>

theorem analyzeBPM_refines:
  assumes "6000 \<le> sampleRate"
  shows "analyzeBPM bufferDuration sampleRate (Some filteredData) =
           bpm_spec bufferDuration
             (envelope_spec filteredData (nat \<lfloor>sampleRate / 6000\<rfloor>))
             (sampleRate / real (nat \<lfloor>sampleRate / 6000\<rfloor>)) \<and>
         (\<exists>result. analyzeBPM bufferDuration sampleRate (Some filteredData) = Some result)"
proof (cases "bufferDuration < 10")
  case True
  then show ?thesis by (simp add: analyzeBPM_def bpm_spec_def)
next
  case False
  define stp where "stp = nat \<lfloor>sampleRate / 6000\<rfloor>"
  define eR where "eR = sampleRate / real stp"
  define env where "env = envelope_spec filteredData stp"
  define minLag where "minLag = nat \<lfloor>eR * (60 / 160)\<rfloor>"
  define maxLag where "maxLag = nat \<lfloor>eR * (60 / 70)\<rfloor>"
  define best where "best = snd (lag_loop env maxLag minLag 0 0)"
  have stp: "0 < stp" and eR: "6000 \<le> eR"
    using rate_facts[OF assms] by (simp_all add: stp_def eR_def)
  have ds: "downsample_loop filteredData stp 0 [] = Some env"
    using stp by (simp add: env_def downsample_envelope)
  have minLag: "0 < minLag" unfolding minLag_def by (rule minLag_pos[OF eR])
  note link = bestLag_link[OF minLag, of env maxLag, folded best_def]
  have code: "analyzeBPM bufferDuration sampleRate (Some filteredData) =
      (if best = 0 then Some 0
       else Option.bind (double_while (real_of_int (js_round (60 * eR / real best * 10)) / 10))
              (\<lambda>c. Option.bind (halve_while c) (\<lambda>c. Some (real_of_int (js_round c)))))"
    unfolding analyzeBPM_def Let_def best_def maxLag_def minLag_def eR_def
    using False ds[unfolded stp_def]
    by (simp only: if_False option.case Option.bind.simps stp_def[symmetric])
  have spec: "bpm_spec bufferDuration env eR =
      (if best = 0 then Some 0
       else map_option (\<lambda>b. real_of_int (round b))
              (fold_spec (real_of_int (round (60 * eR / real best * 10)) / 10)))"
  proof -
    have "eR * 60 / 160 = eR * (60 / 160)" "eR * 60 / 70 = eR * (60 / 70)"
      by simp_all
    then have m: "nat \<lfloor>eR * 60 / 160\<rfloor> = minLag" "nat \<lfloor>eR * 60 / 70\<rfloor> = maxLag"
      by (simp_all only: minLag_def maxLag_def)
    show ?thesis
      unfolding bpm_spec_def m link(1) using False
      by (cases "best = 0") simp_all
  qed
  show ?thesis
  proof (cases "best = 0")
    case True
    with code spec show ?thesis
      by (simp add: stp_def[symmetric] eR_def[symmetric] env_def[symmetric])
  next
    case nz: False
    let ?x = "real_of_int (round (60 * eR / real best * 10)) / 10"
    from link(2)[OF nz] have "best \<le> maxLag" by simp
    then have "70 \<le> ?x" using nz unfolding maxLag_def by (intro bpm_at_least_70) simp_all
    then have pos: "0 < ?x" by linarith
    from fold_agree[OF pos] obtain y where
      eq: "Option.bind (double_while ?x) halve_while = fold_spec ?x" and
      y: "Option.bind (double_while ?x) halve_while = Some y" by blast
    from eq y have fs: "fold_spec ?x = Some y" by simp
    from y obtain z where z: "double_while ?x = Some z" "halve_while z = Some y"
      by (cases "double_while ?x") simp_all
    have "analyzeBPM bufferDuration sampleRate (Some filteredData) = Some (real_of_int (round y))"
      using nz z by (simp add: code js_round_round)
    moreover have "bpm_spec bufferDuration env eR = Some (real_of_int (round y))"
      using nz fs by (simp add: spec)
    ultimately show ?thesis
      by (simp add: stp_def[symmetric] eR_def[symmetric] env_def[symmetric])
  qed
qed

theorem analyzeBPM_refines_witness:
  "(6000::real) \<le> 48000 \<and>
   analyzeBPM 10 48000 (Some (replicate 48000 1)) =
     bpm_spec 10 (envelope_spec (replicate 48000 1) (nat \<lfloor>48000 / 6000 :: real\<rfloor>))
       (48000 / real (nat \<lfloor>48000 / 6000 :: real\<rfloor>)) \<and>
   analyzeBPM 10 48000 (Some (replicate 48000 1)) = Some 160"
proof -
  have st: "nat \<lfloor>48000 / 6000 :: real\<rfloor> = 8" by simp
  have env: "envelope_spec (replicate 48000 1) 8 = replicate 6000 1"
    using envelope_replicate[of 8 6000] by simp
  have "\<lfloor>(6000::real) * 60 / 70\<rfloor> = 5142" by (simp add: floor_eq_iff)
  then have lags: "nat \<lfloor>(6000::real) * 60 / 160\<rfloor> = 2250" "nat \<lfloor>(6000::real) * 60 / 70\<rfloor> = 5142"
    by simp_all
  have best: "bestLag_spec (replicate 6000 1) 2250 5142 = Some 2250"
    by (rule bestLag_replicate) simp_all
  have "bpm_spec 10 (replicate 6000 1) 6000 = Some 160"
    unfolding bpm_spec_def lags best by (simp add: fold_spec_160)
  then show ?thesis
    using analyzeBPM_refines [of 48000 10 "replicate 48000 1"]
    by (simp add: st env)
qed

end
